theory Spec2Isabelle
  imports
    Complex_Main
    "HOL-Library.AList"
    "HOL-Library.Char_ord"
    "HOL-Library.List_Lexorder"
    "HOL-Library.Product_Lexorder"
    "HOL-Library.Multiset"
begin

section \<open>Python values and errors\<close>

text \<open>
  Exceptions of the Python code are values of \<open>error\<close>. The two \<^verbatim>\<open>ValueError\<close>s
  raised by \<^verbatim>\<open>calculate_reachability\<close> itself are kept apart by their message
  ("Invalid day_type", "Stop not found"); \<open>ValueError\<close> is the one raised by
  \<^verbatim>\<open>int()\<close> on a malformed number and by \<^verbatim>\<open>range()\<close> with step zero.
\<close>

datatype error =
    InvalidDayType
  | StopNotFound
  | ValueError
  | IndexError
  | KeyError
  | AttributeError
  | NetworkXError

text \<open>A cell of a pandas column of clock strings: a string, or NaN where the CSV field is empty.\<close>

datatype cell = NaN | Str string

subsection \<open>\<^verbatim>\<open>str.split(':')\<close> and \<^verbatim>\<open>int(str)\<close>\<close>

fun split_colon :: "string \<Rightarrow> string list" where
  "split_colon [] = [[]]"
| "split_colon (c # cs) =
     (if c = CHR '':'' then [] # split_colon cs
      else (case split_colon cs of
              [] \<Rightarrow> [[c]]
            | p # ps \<Rightarrow> (c # p) # ps))"

definition is_digit :: "char \<Rightarrow> bool" where
  "is_digit c \<longleftrightarrow> c \<in> set ''0123456789''"

text \<open>The value of a decimal digit: its position among the digits.\<close>

definition digit_val :: "char \<Rightarrow> nat" where
  "digit_val c = length (takeWhile (\<lambda>d. d \<noteq> c) ''0123456789'')"

text \<open>
  The whitespace \<^verbatim>\<open>int()\<close> skips around the number of an ASCII string: space and
  \<^verbatim>\<open>\t \n \v \f \r\<close>.
\<close>

definition is_space :: "char \<Rightarrow> bool" where
  "is_space c \<longleftrightarrow> c = CHR '' '' \<or> (of_char c :: nat) \<in> {9, 10, 11, 12, 13}"

text \<open>Decimal digits, where single underscores may stand between two digits.\<close>

fun digits_acc :: "nat \<Rightarrow> string \<Rightarrow> nat option" where
  "digits_acc acc [] = Some acc"
| "digits_acc acc (c # cs) =
     (if c = CHR ''_'' then
        (case cs of
           [] \<Rightarrow> None
         | d # _ \<Rightarrow> if is_digit d then digits_acc acc cs else None)
      else if is_digit c then digits_acc (acc * 10 + digit_val c) cs
      else None)"

definition py_digits :: "string \<Rightarrow> nat option" where
  "py_digits s =
     (case s of
        [] \<Rightarrow> None
      | c # _ \<Rightarrow> if is_digit c then digits_acc 0 s else None)"

definition strip :: "string \<Rightarrow> string" where
  "strip s = rev (dropWhile is_space (rev (dropWhile is_space s)))"

text \<open>
  \<^verbatim>\<open>int(s)\<close> for a string in base 10: surrounding whitespace, an optional sign, digits.
  Strings are byte strings here, so digits and spaces outside ASCII are not covered.
\<close>

definition py_int :: "string \<Rightarrow> error + int" where
  "py_int s =
     (let t = strip s;
          (sgn, r) = (case t of
                        [] \<Rightarrow> (1, t)
                      | c # cs \<Rightarrow> if c = CHR ''+'' then (1, cs)
                                 else if c = CHR ''-'' then (- 1, cs)
                                 else (1, t))
      in case py_digits r of
           None \<Rightarrow> Inl ValueError
         | Some n \<Rightarrow> Inr (sgn * int n))"

section \<open>graph\_builder.py: TransitGraphBuilder\<close>

subsection \<open>\<^verbatim>\<open>time_to_seconds\<close> (HH:MM:SS, NaN gives 0)\<close>

definition time_to_seconds :: "cell \<Rightarrow> error + int" where
  "time_to_seconds time_str =
     (case time_str of
        NaN \<Rightarrow> Inr 0
      | Str s \<Rightarrow>
          (case split_colon s of
             p0 # p1 # p2 # _ \<Rightarrow>
               (case py_int p0 of
                  Inl e \<Rightarrow> Inl e
                | Inr hours \<Rightarrow>
                    (case py_int p1 of
                       Inl e \<Rightarrow> Inl e
                     | Inr minutes \<Rightarrow>
                         (case py_int p2 of
                            Inl e \<Rightarrow> Inl e
                          | Inr seconds \<Rightarrow> Inr (hours * 3600 + minutes * 60 + seconds))))
           | [p0, p1] \<Rightarrow>
               (case py_int p0 of
                  Inl e \<Rightarrow> Inl e
                | Inr hours \<Rightarrow>
                    (case py_int p1 of
                       Inl e \<Rightarrow> Inl e
                     | Inr minutes \<Rightarrow> Inl IndexError))
           | [p0] \<Rightarrow> (case py_int p0 of Inl e \<Rightarrow> Inl e | Inr hours \<Rightarrow> Inl IndexError)
           | [] \<Rightarrow> Inl IndexError))"

subsection \<open>\<^verbatim>\<open>get_service_ids_by_day_type\<close>\<close>

text \<open>A row of \<^verbatim>\<open>calendar.txt\<close>: the service identifier and the seven day columns as read (integers).\<close>

record calendar_row =
  service_id :: string
  monday :: int
  tuesday :: int
  wednesday :: int
  thursday :: int
  friday :: int
  saturday :: int
  sunday :: int

text \<open>The dictionary \<^verbatim>\<open>{'weekday': [], 'saturday': [], 'sunday': []}\<close>.\<close>

record service_ids =
  weekday :: "string list"
  saturday_ids :: "string list"
  sunday_ids :: "string list"

definition classify_row :: "calendar_row \<Rightarrow> service_ids \<Rightarrow> service_ids" where
  "classify_row row acc =
     (if monday row = 1 \<and> tuesday row = 1 \<and> wednesday row = 1 \<and> thursday row = 1 \<and>
         friday row = 1 \<and> saturday row = 0 \<and> sunday row = 0
      then acc\<lparr>weekday := weekday acc @ [service_id row]\<rparr>
      else if saturday row = 1 \<and> sunday row = 0 \<and> monday row = 0 \<and> tuesday row = 0 \<and>
              wednesday row = 0 \<and> thursday row = 0 \<and> friday row = 0
      then acc\<lparr>saturday_ids := saturday_ids acc @ [service_id row]\<rparr>
      else if sunday row = 1 \<and> saturday row = 0 \<and> monday row = 0 \<and> tuesday row = 0 \<and>
              wednesday row = 0 \<and> thursday row = 0 \<and> friday row = 0
      then acc\<lparr>sunday_ids := sunday_ids acc @ [service_id row]\<rparr>
      else
        (let a1 = (if monday row = 1 \<or> tuesday row = 1 \<or> wednesday row = 1 \<or>
                      thursday row = 1 \<or> friday row = 1
                   then acc\<lparr>weekday := weekday acc @ [service_id row]\<rparr> else acc);
             a2 = (if saturday row = 1
                   then a1\<lparr>saturday_ids := saturday_ids a1 @ [service_id row]\<rparr> else a1)
         in if sunday row = 1
            then a2\<lparr>sunday_ids := sunday_ids a2 @ [service_id row]\<rparr> else a2))"

definition get_service_ids_by_day_type :: "calendar_row list \<Rightarrow> service_ids" where
  "get_service_ids_by_day_type calendar_df =
     fold classify_row calendar_df \<lparr>weekday = [], saturday_ids = [], sunday_ids = []\<rparr>"


section \<open>The graph: a networkx directed graph\<close>

text \<open>
  The graph object is a \<^verbatim>\<open>networkx\<close> graph. Its two dictionaries are association lists
  in insertion order: \<open>nodes\<close> maps a stop to its attribute dictionary (\<open>None\<close> when the
  node was created by \<^verbatim>\<open>add_edge\<close> and has no attributes), \<open>adj\<close> maps a stop to the
  dictionary of its successors. Coordinates are carried along and never computed with.
\<close>

type_synonym stop_id = string
type_synonym coord = rat

record node_attrs =
  stop_name :: string
  lat :: coord
  lon :: coord

text \<open>
  The attribute dictionary of an edge, with the six keys the builder writes;
  \<open>None\<close> is an absent key.
\<close>

record edge_attrs =
  departure_time :: "int option"
  arrival_time :: "int option"
  duration :: "int option"
  trip_id :: "string option"
  route_name :: "cell option"
  transfer :: "bool option"

definition no_attrs :: edge_attrs where
  "no_attrs = \<lparr>departure_time = None, arrival_time = None, duration = None,
                trip_id = None, route_name = None, transfer = None\<rparr>"

text \<open>
  What \<^verbatim>\<open>G.get_edge_data(u, v)\<close> returns: in a \<^verbatim>\<open>DiGraph\<close> the attribute dictionary
  of the one edge, in a \<^verbatim>\<open>MultiDiGraph\<close> a dictionary from edge keys to the attribute
  dictionaries of the parallel edges (in insertion order).
\<close>

datatype edge_data = AttrDict edge_attrs | KeyDict "edge_attrs list"

record graph =
  nodes :: "(stop_id \<times> node_attrs option) list"
  adj :: "(stop_id \<times> (stop_id \<times> edge_data) list) list"

definition empty_graph :: graph where
  "empty_graph = \<lparr>nodes = [], adj = []\<rparr>"

definition has_node :: "graph \<Rightarrow> stop_id \<Rightarrow> bool" where
  "has_node G n \<longleftrightarrow> map_of (nodes G) n \<noteq> None"

text \<open>\<^verbatim>\<open>G.add_node(n, **attr)\<close>: a new node gets an empty successor dictionary.\<close>

definition add_node :: "stop_id \<Rightarrow> node_attrs \<Rightarrow> graph \<Rightarrow> graph" where
  "add_node n attr G =
     \<lparr>nodes = AList.update n (Some attr) (nodes G),
      adj = (if map_of (adj G) n = None then AList.update n [] (adj G) else adj G)\<rparr>"

text \<open>The node creation inside \<^verbatim>\<open>add_edge\<close>: an unknown endpoint becomes a node without attributes.\<close>

definition ensure_node :: "stop_id \<Rightarrow> graph \<Rightarrow> graph" where
  "ensure_node n G =
     (if map_of (adj G) n = None
      then \<lparr>nodes = AList.update n None (nodes G), adj = AList.update n [] (adj G)\<rparr>
      else G)"

text \<open>\<^verbatim>\<open>datadict.update(attr)\<close>: the keys of \<open>attr\<close> overwrite, the others stay.\<close>

definition update_attrs :: "edge_attrs \<Rightarrow> edge_attrs \<Rightarrow> edge_attrs" where
  "update_attrs datadict attr =
     \<lparr>departure_time = (case departure_time attr of None \<Rightarrow> departure_time datadict | Some v \<Rightarrow> Some v),
      arrival_time = (case arrival_time attr of None \<Rightarrow> arrival_time datadict | Some v \<Rightarrow> Some v),
      duration = (case duration attr of None \<Rightarrow> duration datadict | Some v \<Rightarrow> Some v),
      trip_id = (case trip_id attr of None \<Rightarrow> trip_id datadict | Some v \<Rightarrow> Some v),
      route_name = (case route_name attr of None \<Rightarrow> route_name datadict | Some v \<Rightarrow> Some v),
      transfer = (case transfer attr of None \<Rightarrow> transfer datadict | Some v \<Rightarrow> Some v)\<rparr>"

text \<open>
  \<^verbatim>\<open>G.add_edge(u, v, **attr)\<close>. On a \<^verbatim>\<open>DiGraph\<close> there is one attribute dictionary per
  ordered pair: an edge that is already there has its attributes updated. (On the
  dictionary of a multigraph the edge is appended under a new key.)
\<close>

definition add_edge :: "stop_id \<Rightarrow> stop_id \<Rightarrow> edge_attrs \<Rightarrow> graph \<Rightarrow> graph" where
  "add_edge u v attr G =
     (let G' = ensure_node v (ensure_node u G);
          succ = (case map_of (adj G') u of None \<Rightarrow> [] | Some nb \<Rightarrow> nb);
          datadict = (case map_of succ v of
                        None \<Rightarrow> AttrDict (update_attrs no_attrs attr)
                      | Some (AttrDict d) \<Rightarrow> AttrDict (update_attrs d attr)
                      | Some (KeyDict es) \<Rightarrow> KeyDict (es @ [attr]))
      in G'\<lparr>adj := AList.update u (AList.update v datadict succ) (adj G')\<rparr>)"

subsection \<open>The GTFS tables\<close>

record stop_row =
  row_stop_id :: stop_id
  row_stop_name :: string
  stop_lat :: coord
  stop_lon :: coord

record trip_row =
  trips_trip_id :: string
  trips_service_id :: string
  trips_route_id :: string

record route_row =
  routes_route_id :: string
  route_short_name :: cell

record stop_time_row =
  st_trip_id :: string
  st_stop_id :: stop_id
  stop_sequence :: int
  arrival_time_str :: cell
  departure_time_str :: cell

text \<open>A row of \<^verbatim>\<open>stop_times_on_day\<close> after the two columns of seconds are added.\<close>

record stop_time_sec = stop_time_row +
  departure_time_sec :: int
  arrival_time_sec :: int

record transfer_row =
  from_stop_id :: stop_id
  to_stop_id :: stop_id
  min_transfer_time :: "int option"

record builder =
  stops_df :: "stop_row list"
  stop_times_df :: "stop_time_row list"
  trips_df :: "trip_row list"
  routes_df :: "route_row list"
  calendar_df :: "calendar_row list"
  transfers_df :: "transfer_row list option"

definition DEFAULT_TRANSFER_TIME :: int where
  "DEFAULT_TRANSFER_TIME = 180"

subsection \<open>\<^verbatim>\<open>build_graph_for_day_type\<close>\<close>

text \<open>\<^verbatim>\<open>column.apply(self.time_to_seconds)\<close>: the first clock string that fails raises.\<close>

fun apply_time_to_seconds :: "cell list \<Rightarrow> error + int list" where
  "apply_time_to_seconds [] = Inr []"
| "apply_time_to_seconds (c # cs) =
     (case time_to_seconds c of
        Inl e \<Rightarrow> Inl e
      | Inr t \<Rightarrow> (case apply_time_to_seconds cs of Inl e \<Rightarrow> Inl e | Inr ts \<Rightarrow> Inr (t # ts)))"

definition with_seconds :: "stop_time_row \<Rightarrow> int \<Rightarrow> int \<Rightarrow> stop_time_sec" where
  "with_seconds r d a = stop_time_row.extend r
     (stop_time_sec.fields d a)"

definition convert_times :: "stop_time_row list \<Rightarrow> error + stop_time_sec list" where
  "convert_times rows =
     (case apply_time_to_seconds (map departure_time_str rows) of
        Inl e \<Rightarrow> Inl e
      | Inr deps \<Rightarrow>
          (case apply_time_to_seconds (map arrival_time_str rows) of
             Inl e \<Rightarrow> Inl e
           | Inr arrs \<Rightarrow> Inr (map (\<lambda>(r, d, a). with_seconds r d a) (zip rows (zip deps arrs)))))"

text \<open>
  The left merge of the day's trips with the routes, zipped into the dictionary
  \<^verbatim>\<open>trip_route_map\<close>: a trip without a route has NaN as its name, a later row overwrites.
\<close>

definition merge_routes :: "trip_row list \<Rightarrow> route_row list \<Rightarrow> (string \<times> cell) list" where
  "merge_routes trips routes =
     concat (map (\<lambda>t.
        (case filter (\<lambda>r. routes_route_id r = trips_route_id t) routes of
           [] \<Rightarrow> [(trips_trip_id t, NaN)]
         | rs \<Rightarrow> map (\<lambda>r. (trips_trip_id t, route_short_name r)) rs)) trips)"

definition trip_route_map :: "trip_row list \<Rightarrow> route_row list \<Rightarrow> (string \<times> cell) list" where
  "trip_route_map trips routes =
     fold (\<lambda>(k, v). AList.update k v) (merge_routes trips routes) []"

text \<open>
  The seconds of a row are values of the int64 columns \<^verbatim>\<open>departure_time_sec\<close> and
  \<^verbatim>\<open>arrival_time_sec\<close>, so the arithmetic on them is numpy's: a sum or a difference outside
  the 64 bits wraps around. (Times that do not fit 64 bits, for which pandas makes no int64
  column, are not covered.)
\<close>

definition int64 :: "int \<Rightarrow> int" where
  "int64 x = (x + 2 ^ 63) mod 2 ^ 64 - 2 ^ 63"

text \<open>
  The edge of one consecutive pair of stop visits, lines 217 to 235: the midnight
  correction adds 24 hours once when the arrival is smaller than the departure.
\<close>

definition segment_edge :: "stop_time_sec \<Rightarrow> stop_time_sec \<Rightarrow> string \<Rightarrow> cell \<Rightarrow> edge_attrs" where
  "segment_edge from_stop to_stop tid rname =
     (let departure = departure_time_sec from_stop;
          arrival0 = arrival_time_sec to_stop;
          arrival = (if arrival0 < departure then int64 (arrival0 + 24 * 3600) else arrival0);
          dur = int64 (arrival - departure)
      in \<lparr>departure_time = Some departure, arrival_time = Some arrival, duration = Some dur,
          trip_id = Some tid, route_name = Some rname, transfer = None\<rparr>)"

text \<open>The loop \<^verbatim>\<open>for i in range(len(trip_stops) - 1)\<close> over the sorted visits of one trip.\<close>

fun trip_edges :: "string \<Rightarrow> cell \<Rightarrow> stop_time_sec list \<Rightarrow> graph \<Rightarrow> graph" where
  "trip_edges tid rname (a # b # rest) G =
     trip_edges tid rname (b # rest)
       (add_edge (st_stop_id a) (st_stop_id b) (segment_edge a b tid rname) G)"
| "trip_edges tid rname [a] G = G"
| "trip_edges tid rname [] G = G"

definition transfer_edge :: "int \<Rightarrow> edge_attrs" where
  "transfer_edge t = no_attrs\<lparr>transfer := Some True, duration := Some t\<rparr>"

definition add_transfer :: "transfer_row \<Rightarrow> graph \<Rightarrow> graph" where
  "add_transfer tr G =
     (let transfer_time = (case min_transfer_time tr of
                             Some t \<Rightarrow> t
                           | None \<Rightarrow> DEFAULT_TRANSFER_TIME)
      in if has_node G (from_stop_id tr) \<and> has_node G (to_stop_id tr)
         then add_edge (from_stop_id tr) (to_stop_id tr) (transfer_edge transfer_time) G
         else G)"

text \<open>
  The whole build. \<^verbatim>\<open>groupby('trip_id')\<close> visits the trips in ascending order of their
  identifier; the visits of a trip are sorted by \<^verbatim>\<open>stop_sequence\<close> (visits with equal
  sequence numbers, whose order pandas does not fix, keep their order here).
\<close>

definition build_graph_for_day_type :: "builder \<Rightarrow> string \<Rightarrow> string list \<Rightarrow> error + graph" where
  "build_graph_for_day_type self day_type service_ids =
     (let G0 = fold (\<lambda>stop. add_node (row_stop_id stop)
                       \<lparr>stop_name = row_stop_name stop, lat = stop_lat stop, lon = stop_lon stop\<rparr>)
                 (stops_df self) empty_graph;
          trips_on_day = filter (\<lambda>t. trips_service_id t \<in> set service_ids) (trips_df self);
          trip_ids = map trips_trip_id trips_on_day;
          route_map = trip_route_map trips_on_day (routes_df self);
          stop_times_on_day = filter (\<lambda>r. st_trip_id r \<in> set trip_ids) (stop_times_df self)
      in case convert_times stop_times_on_day of
           Inl e \<Rightarrow> Inl e
         | Inr rows \<Rightarrow>
             (let sorted_rows = sort_key (\<lambda>r. (st_trip_id r, stop_sequence r)) rows;
                  G1 = fold (\<lambda>tid.
                         trip_edges tid
                           (case map_of route_map tid of None \<Rightarrow> Str ''Unknown'' | Some c \<Rightarrow> c)
                           (sort_key stop_sequence (filter (\<lambda>r. st_trip_id r = tid) sorted_rows)))
                         (sort (remdups (map st_trip_id sorted_rows))) G0
              in case transfers_df self of
                   None \<Rightarrow> Inr G1
                 | Some transfers \<Rightarrow> Inr (fold add_transfer transfers G1)))"


section \<open>reachability.py: ReachabilityCalculator\<close>

subsection \<open>\<^verbatim>\<open>time_to_seconds\<close> of the calculator (HH:MM)\<close>

definition hhmm_to_seconds :: "string \<Rightarrow> error + int" where
  "hhmm_to_seconds time_str =
     (case split_colon time_str of
        p0 # p1 # _ \<Rightarrow>
          (case py_int p0 of
             Inl e \<Rightarrow> Inl e
           | Inr hours \<Rightarrow>
               (case py_int p1 of
                  Inl e \<Rightarrow> Inl e
                | Inr minutes \<Rightarrow> Inr (hours * 3600 + minutes * 60)))
      | [p0] \<Rightarrow> (case py_int p0 of Inl e \<Rightarrow> Inl e | Inr hours \<Rightarrow> Inl IndexError)
      | [] \<Rightarrow> Inl IndexError)"

subsection \<open>The search state\<close>

text \<open>
  \<open>arrivals\<close> is the dictionary \<^verbatim>\<open>earliest_arrival\<close> (stop to arrival time and number of
  transfers, in insertion order). A queue entry is the tuple
  \<^verbatim>\<open>(arrival_time, stop_id, num_transfers)\<close>, compared as Python compares tuples. The
  heap is the list of its entries: \<^verbatim>\<open>heappush\<close> adds one, \<^verbatim>\<open>heappop\<close> takes the least.
\<close>

type_synonym arrivals = "(stop_id \<times> int \<times> int) list"
type_synonym entry = "int \<times> stop_id \<times> int"

text \<open>\<^verbatim>\<open>if best_arrival is None or arrival_time < best_arrival\<close>: the first of equals stays.\<close>

definition better :: "int \<Rightarrow> int \<Rightarrow> (int \<times> int) option \<Rightarrow> (int \<times> int) option" where
  "better arrival transfers best =
     (case best of
        None \<Rightarrow> Some (arrival, transfers)
      | Some (best_arrival, best_transfers) \<Rightarrow>
          if arrival < best_arrival then Some (arrival, transfers) else best)"

text \<open>The body of \<^verbatim>\<open>for edge in edges\<close>, lines 119 to 152.\<close>

definition relax_edge ::
  "int \<Rightarrow> int \<Rightarrow> int \<Rightarrow> int \<Rightarrow> (int \<times> int) option \<Rightarrow> edge_attrs \<Rightarrow> error + (int \<times> int) option" where
  "relax_edge dep_sec max_time_sec current_time num_transfers best edge =
     (if transfer edge = Some True then
        (case duration edge of
           None \<Rightarrow> Inl KeyError
         | Some d \<Rightarrow>
             (let arrival = current_time + d;
                  new_transfers = num_transfers + 1
              in Inr (if arrival - dep_sec \<le> max_time_sec
                      then better arrival new_transfers best else best)))
      else
        (case departure_time edge of
           None \<Rightarrow> Inl KeyError
         | Some dep0 \<Rightarrow>
             (case arrival_time edge of
                None \<Rightarrow> Inl KeyError
              | Some arr0 \<Rightarrow>
                  (let wrap = dep0 < current_time - 24 * 3600;
                       dep_time = (if wrap then dep0 + 24 * 3600 else dep0);
                       arr_time = (if wrap then arr0 + 24 * 3600 else arr0)
                   in Inr (if dep_time \<ge> current_time
                           then (if arr_time - dep_sec \<le> max_time_sec
                                 then better arr_time
                                        (num_transfers + (if dep_time - current_time > 120 then 1 else 0))
                                        best
                                 else best)
                           else best)))))"

fun best_connection ::
  "int \<Rightarrow> int \<Rightarrow> int \<Rightarrow> int \<Rightarrow> edge_attrs list \<Rightarrow> (int \<times> int) option \<Rightarrow> error + (int \<times> int) option" where
  "best_connection d m t n [] best = Inr best"
| "best_connection d m t n (e # es) best =
     (case relax_edge d m t n best e of
        Inl err \<Rightarrow> Inl err
      | Inr best' \<Rightarrow> best_connection d m t n es best')"

text \<open>
  Lines 106 to 114. An attribute dictionary with a \<^verbatim>\<open>departure_time\<close> is taken as the
  single edge. Any other dictionary is taken as a dictionary of edges: for the one of a
  multigraph these are its edges; for an attribute dictionary without
  \<^verbatim>\<open>departure_time\<close> they are its values (a bool, a number, a string), and the loop
  fails on the first with \<^verbatim>\<open>AttributeError\<close>; an empty one gives no edge.
\<close>

definition edges_of :: "edge_data \<Rightarrow> error + edge_attrs list" where
  "edges_of edge_data =
     (case edge_data of
        AttrDict a \<Rightarrow>
          if departure_time a \<noteq> None then Inr [a]
          else if a = no_attrs then Inr []
          else Inl AttributeError
      | KeyDict es \<Rightarrow> Inr es)"

text \<open>The loop \<^verbatim>\<open>for neighbor in G.neighbors(current_stop)\<close>, lines 103 to 159.\<close>

fun expand ::
  "int \<Rightarrow> int \<Rightarrow> int \<Rightarrow> int \<Rightarrow> (stop_id \<times> edge_data) list \<Rightarrow> arrivals \<Rightarrow> entry list
     \<Rightarrow> error + (arrivals \<times> entry list)" where
  "expand d m t n [] ea pq = Inr (ea, pq)"
| "expand d m t n ((neighbor, edge_data) # rest) ea pq =
     (case edges_of edge_data of
        Inl e \<Rightarrow> Inl e
      | Inr edges \<Rightarrow>
          (case best_connection d m t n edges None of
             Inl e \<Rightarrow> Inl e
           | Inr None \<Rightarrow> expand d m t n rest ea pq
           | Inr (Some (best_arrival, best_transfers)) \<Rightarrow>
               if (case map_of ea neighbor of
                     None \<Rightarrow> True
                   | Some (known, _) \<Rightarrow> best_arrival < known)
               then expand d m t n rest
                      (AList.update neighbor (best_arrival, best_transfers) ea)
                      (pq @ [(best_arrival, neighbor, best_transfers)])
               else expand d m t n rest ea pq))"

definition neighbors :: "graph \<Rightarrow> stop_id \<Rightarrow> error + (stop_id \<times> edge_data) list" where
  "neighbors G n = (case map_of (adj G) n of None \<Rightarrow> Inl NetworkXError | Some nb \<Rightarrow> Inr nb)"

text \<open>The least entry of a non-empty heap.\<close>

definition heap_min :: "entry \<Rightarrow> entry list \<Rightarrow> entry" where
  "heap_min x xs = fold min xs x"

lemma heap_min_Min: "heap_min x xs = Min (set (x # xs))"
  by (simp only: heap_min_def Min.set_eq_fold)

lemma heap_min_in: "heap_min x xs \<in> set (x # xs)"
  unfolding heap_min_Min by (rule Min_in) simp_all

lemma length_remove1_heap_min: "length (remove1 (heap_min x xs) (x # xs)) = length xs"
  using heap_min_in [of x xs] by (simp add: length_remove1 del: remove1.simps)

text \<open>The loop \<^verbatim>\<open>while pq\<close>, lines 89 to 159.\<close>

function search ::
  "graph \<Rightarrow> int \<Rightarrow> int \<Rightarrow> arrivals \<Rightarrow> entry list \<Rightarrow> stop_id set \<Rightarrow> error + arrivals" where
  "search G d m ea [] explored = Inr ea"
| "search G d m ea (x # xs) explored =
     (let cur = heap_min x xs;
          current_time = fst cur;
          current_stop = fst (snd cur);
          num_transfers = snd (snd cur);
          pq = remove1 cur (x # xs)
      in if current_stop \<in> explored then search G d m ea pq explored
         else if current_time - d > m then search G d m ea pq (insert current_stop explored)
         else (case neighbors G current_stop of
                 Inl e \<Rightarrow> Inl e
               | Inr nbrs \<Rightarrow>
                   (case expand d m current_time num_transfers nbrs ea pq of
                      Inl e \<Rightarrow> Inl e
                    | Inr (ea', pq') \<Rightarrow> search G d m ea' pq' (insert current_stop explored))))"
  by pat_completeness auto
termination
proof (relation "measures [\<lambda>(G, d, m, ea, pq, explored). card (fst ` set (adj G) - explored),
                          \<lambda>(G, d, m, ea, pq, explored). length pq]", goal_cases)
  case 1
  show ?case by simp
next
  case (2 G d m ea x xs explored cur ct cs nt pq)
  then show ?case by (simp add: length_remove1_heap_min del: remove1.simps)
next
  case (3 G d m ea x xs explored cur ct cs nt pq)
  have "card (fst ` set (adj G) - insert cs explored) \<le> card (fst ` set (adj G) - explored)"
    by (rule card_mono) auto
  with 3 show ?case
    by (auto simp: length_remove1_heap_min simp del: remove1.simps)
next
  case (4 G d m ea x xs explored cur ct cs nt pq nbrs res ea' pq')
  then have "cs \<in> fst ` set (adj G)" "cs \<notin> explored"
    by (auto simp: neighbors_def split: option.splits dest: map_of_SomeD intro: rev_image_eqI)
  then have "card (fst ` set (adj G) - insert cs explored) < card (fst ` set (adj G) - explored)"
    by (intro psubset_card_mono) auto
  with 4 show ?case by simp
qed

subsection \<open>The result list\<close>

text \<open>
  \<^verbatim>\<open>round(travel_time_sec / 60.0, 1)\<close>: the travel time in minutes to one decimal place,
  kept as the rational number of that decimal. The quotient is a double, and \<^verbatim>\<open>round\<close>
  rounds the exact value of that double, half to even. A time that is not \<open>3\<close> modulo
  \<open>6\<close> seconds is at least a sixtieth of a minute from a half tenth, far more than the
  error of the division, so it goes to the nearest tenth. A time of \<open>6 q + 3\<close> seconds is
  \<open>(2 q + 1) / 20\<close> minutes, exactly a half tenth, and where the double of it lies
  decides: the quotient is rounded to 53 bits, which leaves a remainder of fifths; above
  the half the result is the tenth above, below it the tenth below, and on it (the
  double is exact) the even tenth. This is exact for times below \<open>2 ^ 53\<close> seconds in
  absolute value, where the integer is a double itself.
\<close>

function bit_length :: "int \<Rightarrow> nat" where
  "bit_length n = (if n \<le> 0 then 0 else Suc (bit_length (n div 2)))"
  by auto
termination
  by (relation "measure nat") auto

declare bit_length.simps [simp del]

text \<open>
  For \<open>n = 6 q + 3\<close> seconds: does \<^verbatim>\<open>round(n / 60.0, 1)\<close> give the tenth above?
  With \<open>a = 2 q + 1\<close> and \<open>2 ^ k \<le> a / 20 < 2 ^ (k + 1)\<close>, the double is \<open>a / 20\<close> rounded to a
  multiple of \<open>2 ^ (k - 52)\<close>; in these units \<open>a / 20\<close> is \<open>a * 2 ^ (50 - k) / 5\<close>.
\<close>

definition half_up :: "int \<Rightarrow> bool" where
  "half_up n =
     (let q = n div 6;
          a = 2 * q + 1;
          shift = 56 - bit_length (8 * a div 5);
          fifths = (a * 2 ^ shift) mod 5
      in fifths \<ge> 3 \<or> (fifths = 0 \<and> odd q))"

definition round1_minutes :: "int \<Rightarrow> rat" where
  "round1_minutes travel_time_sec =
     (let q = travel_time_sec div 6;
          r = travel_time_sec mod 6;
          above = (if 0 \<le> travel_time_sec then half_up travel_time_sec
                   else \<not> half_up (- travel_time_sec));
          tenths = (if r < 3 then q else if r > 3 then q + 1 else if above then q + 1 else q)
      in of_int tenths / 10)"

record reachable_stop = node_attrs +
  stop_id :: stop_id
  travel_time_minutes :: rat
  num_transfers :: int

text \<open>Lines 162 to 180; \<^verbatim>\<open>G.nodes[stop_id]['stop_name']\<close> fails on a node without attributes.\<close>

fun build_results :: "graph \<Rightarrow> stop_id \<Rightarrow> int \<Rightarrow> arrivals \<Rightarrow> error + reachable_stop list" where
  "build_results G origin d [] = Inr []"
| "build_results G origin d ((sid, arrival, n) # rest) =
     (if sid = origin then build_results G origin d rest
      else (case map_of (nodes G) sid of
              None \<Rightarrow> Inl KeyError
            | Some None \<Rightarrow> Inl KeyError
            | Some (Some stop_data) \<Rightarrow>
                (case build_results G origin d rest of
                   Inl e \<Rightarrow> Inl e
                 | Inr results \<Rightarrow>
                     Inr (\<lparr>stop_name = stop_name stop_data, lat = lat stop_data, lon = lon stop_data,
                           stop_id = sid, travel_time_minutes = round1_minutes (arrival - d),
                           num_transfers = n\<rparr> # results))))"

subsection \<open>\<^verbatim>\<open>calculate_reachability\<close>\<close>

text \<open>\<open>graphs\<close> is the dictionary \<^verbatim>\<open>self.graphs\<close> from day type to graph.\<close>

definition calculate_reachability ::
  "(string \<Rightarrow> graph option) \<Rightarrow> stop_id \<Rightarrow> string \<Rightarrow> int \<Rightarrow> string \<Rightarrow> error + reachable_stop list" where
  "calculate_reachability graphs origin_stop_id departure max_time_minutes day_type =
     (case graphs day_type of
        None \<Rightarrow> Inl InvalidDayType
      | Some G \<Rightarrow>
          if \<not> has_node G origin_stop_id then Inl StopNotFound
          else (case hhmm_to_seconds departure of
                  Inl e \<Rightarrow> Inl e
                | Inr dep_sec \<Rightarrow>
                    (case search G dep_sec (max_time_minutes * 60)
                            [(origin_stop_id, dep_sec, 0)]
                            [(dep_sec, origin_stop_id, 0)] {} of
                       Inl e \<Rightarrow> Inl e
                     | Inr earliest_arrival \<Rightarrow>
                         (case build_results G origin_stop_id dep_sec earliest_arrival of
                            Inl e \<Rightarrow> Inl e
                          | Inr results \<Rightarrow> Inr (sort_key travel_time_minutes results)))))"

subsection \<open>\<^verbatim>\<open>calculate_reachability_timeline\<close>\<close>

text \<open>\<^verbatim>\<open>range(start, stop, step)\<close>: its length and its elements.\<close>

definition py_range :: "int \<Rightarrow> int \<Rightarrow> int \<Rightarrow> error + int list" where
  "py_range start stop step =
     (if step = 0 then Inl ValueError
      else if step > 0 then
        Inr (if start < stop
             then map (\<lambda>i. start + int i * step) [0..<nat ((stop - start - 1) div step + 1)]
             else [])
      else
        Inr (if stop < start
             then map (\<lambda>i. start + int i * step) [0..<nat ((start - stop - 1) div (- step) + 1)]
             else []))"

record timeline_frame =
  elapsed_minutes :: int
  reachable_stops :: "reachable_stop list"

definition calculate_reachability_timeline ::
  "(string \<Rightarrow> graph option) \<Rightarrow> stop_id \<Rightarrow> string \<Rightarrow> int \<Rightarrow> int \<Rightarrow> string
     \<Rightarrow> error + timeline_frame list" where
  "calculate_reachability_timeline graphs origin_stop_id departure max_time_minutes
       time_step_minutes day_type =
     (case calculate_reachability graphs origin_stop_id departure max_time_minutes day_type of
        Inl e \<Rightarrow> Inl e
      | Inr all_reachable \<Rightarrow>
          (case py_range time_step_minutes (max_time_minutes + 1) time_step_minutes of
             Inl e \<Rightarrow> Inl e
           | Inr steps \<Rightarrow>
               Inr (map (\<lambda>step.
                      \<lparr>elapsed_minutes = step,
                       reachable_stops =
                         filter (\<lambda>stop. travel_time_minutes stop \<le> of_int step) all_reachable\<rparr>)
                    steps)))"

section \<open>Concrete inputs\<close>

definition visit :: "string \<Rightarrow> stop_id \<Rightarrow> int \<Rightarrow> cell \<Rightarrow> cell \<Rightarrow> stop_time_row" where
  "visit t s q a d = \<lparr>st_trip_id = t, st_stop_id = s, stop_sequence = q,
                      arrival_time_str = a, departure_time_str = d\<rparr>"

definition two_stops :: "stop_row list" where
  "two_stops = [\<lparr>row_stop_id = ''A'', row_stop_name = ''Alpha'', stop_lat = 48, stop_lon = 11\<rparr>,
                \<lparr>row_stop_id = ''B'', row_stop_name = ''Beta'', stop_lat = 48, stop_lon = 11\<rparr>]"

text \<open>Two trips of one service that both run from A to B, an hour apart.\<close>

definition parallel_builder :: builder where
  "parallel_builder =
     \<lparr>stops_df = two_stops,
      stop_times_df =
        [visit ''T1'' ''A'' 1 (Str ''08:00:00'') (Str ''08:00:00''),
         visit ''T1'' ''B'' 2 (Str ''08:10:00'') (Str ''08:10:00''),
         visit ''T2'' ''A'' 1 (Str ''09:00:00'') (Str ''09:00:00''),
         visit ''T2'' ''B'' 2 (Str ''09:10:00'') (Str ''09:10:00'')],
      trips_df =
        [\<lparr>trips_trip_id = ''T1'', trips_service_id = ''S1'', trips_route_id = ''R1''\<rparr>,
         \<lparr>trips_trip_id = ''T2'', trips_service_id = ''S1'', trips_route_id = ''R1''\<rparr>],
      routes_df = [\<lparr>routes_route_id = ''R1'', route_short_name = Str ''U6''\<rparr>],
      calendar_df = [],
      transfers_df = None\<rparr>"

text \<open>One trip from A to B whose departure at A is missing in the feed.\<close>

definition nan_builder :: builder where
  "nan_builder =
     \<lparr>stops_df = two_stops,
      stop_times_df =
        [visit ''T1'' ''A'' 1 (Str ''08:00:00'') NaN,
         visit ''T1'' ''B'' 2 (Str ''08:10:00'') (Str ''08:10:00'')],
      trips_df = [\<lparr>trips_trip_id = ''T1'', trips_service_id = ''S1'', trips_route_id = ''R1''\<rparr>],
      routes_df = [\<lparr>routes_route_id = ''R1'', route_short_name = Str ''U6''\<rparr>],
      calendar_df = [],
      transfers_df = None\<rparr>"

text \<open>
  One trip from A over B to C whose visit at B has neither an arrival nor a departure
  in the feed.
\<close>

definition three_stops :: "stop_row list" where
  "three_stops = two_stops @
     [\<lparr>row_stop_id = ''C'', row_stop_name = ''Gamma'', stop_lat = 48, stop_lon = 11\<rparr>]"

definition gap_visits :: "stop_time_row list" where
  "gap_visits =
     [visit ''T1'' ''A'' 1 (Str ''08:00:00'') (Str ''08:00:00''),
      visit ''T1'' ''B'' 2 NaN NaN,
      visit ''T1'' ''C'' 3 (Str ''08:20:00'') (Str ''08:20:00'')]"

definition gap_secs :: "stop_time_sec list" where
  "gap_secs =
     [with_seconds (visit ''T1'' ''A'' 1 (Str ''08:00:00'') (Str ''08:00:00'')) 28800 28800,
      with_seconds (visit ''T1'' ''B'' 2 NaN NaN) 0 0,
      with_seconds (visit ''T1'' ''C'' 3 (Str ''08:20:00'') (Str ''08:20:00'')) 30000 30000]"

definition gap_builder :: builder where
  "gap_builder =
     \<lparr>stops_df = three_stops,
      stop_times_df = gap_visits,
      trips_df = [\<lparr>trips_trip_id = ''T1'', trips_service_id = ''S1'', trips_route_id = ''R1''\<rparr>],
      routes_df = [\<lparr>routes_route_id = ''R1'', route_short_name = Str ''U6''\<rparr>],
      calendar_df = [],
      transfers_df = None\<rparr>"

definition trip_segment :: "int \<Rightarrow> int \<Rightarrow> edge_attrs" where
  "trip_segment d a = \<lparr>departure_time = Some d, arrival_time = Some a, duration = Some (a - d),
                       trip_id = Some ''T'', route_name = Some (Str ''U''), transfer = None\<rparr>"

definition named :: "string \<Rightarrow> node_attrs option" where
  "named n = Some \<lparr>stop_name = n, lat = 48, lon = 11\<rparr>"

text \<open>
  The scenario of the specification: A to B departing 09:00:00 and arriving 09:10:00,
  B to C departing 09:20:00 and arriving 09:30:00.
\<close>

definition abc_graph :: graph where
  "abc_graph =
     \<lparr>nodes = [(''A'', named ''Alpha''), (''B'', named ''Beta''), (''C'', named ''Gamma'')],
      adj = [(''A'', [(''B'', AttrDict (trip_segment 32400 33000))]),
             (''B'', [(''C'', AttrDict (trip_segment 33600 34200))]),
             (''C'', [])]\<rparr>"

definition abc_graphs :: "string \<Rightarrow> graph option" where
  "abc_graphs = [''weekday'' \<mapsto> abc_graph]"

definition stop_B :: reachable_stop where
  "stop_B = \<lparr>stop_name = ''Beta'', lat = 48, lon = 11, stop_id = ''B'',
             travel_time_minutes = 10, num_transfers = 0\<rparr>"

definition stop_C :: reachable_stop where
  "stop_C = \<lparr>stop_name = ''Gamma'', lat = 48, lon = 11, stop_id = ''C'',
             travel_time_minutes = 30, num_transfers = 1\<rparr>"

text \<open>A calendar rule active on Saturday and Sunday only.\<close>

definition weekend_rule :: calendar_row where
  "weekend_rule = \<lparr>service_id = ''WE'', monday = 0, tuesday = 0, wednesday = 0, thursday = 0,
                   friday = 0, saturday = 1, sunday = 1\<rparr>"

definition at_times :: "int \<Rightarrow> int \<Rightarrow> stop_time_sec" where
  "at_times a d = with_seconds (visit ''T1'' ''A'' 1 NaN NaN) d a"

section \<open>Conditions on graphs\<close>

text \<open>The edges behind what \<^verbatim>\<open>get_edge_data\<close> returns.\<close>

definition edges_in :: "edge_data \<Rightarrow> edge_attrs list" where
  "edges_in edge_data = (case edge_data of AttrDict a \<Rightarrow> [a] | KeyDict es \<Rightarrow> es)"

text \<open>\<^verbatim>\<open>G.has_edge(u, v)\<close>: \<open>v\<close> is a key of the successor dictionary of \<open>u\<close>.\<close>

definition has_edge :: "graph \<Rightarrow> stop_id \<Rightarrow> stop_id \<Rightarrow> bool" where
  "has_edge G u v \<longleftrightarrow> (case map_of (adj G) u of None \<Rightarrow> False | Some nb \<Rightarrow> map_of nb v \<noteq> None)"

text \<open>An edge carries the attributes its branch of the edge loop reads.\<close>

definition edge_ok :: "edge_attrs \<Rightarrow> bool" where
  "edge_ok e \<longleftrightarrow>
     (if transfer e = Some True then duration e \<noteq> None
      else departure_time e \<noteq> None \<and> arrival_time e \<noteq> None)"

definition edge_data_ok :: "edge_data \<Rightarrow> bool" where
  "edge_data_ok edge_data \<longleftrightarrow>
     (case edge_data of
        AttrDict a \<Rightarrow> a = no_attrs \<or> (departure_time a \<noteq> None \<and> edge_ok a)
      | KeyDict es \<Rightarrow> list_all edge_ok es)"

definition has_attrs :: "graph \<Rightarrow> stop_id \<Rightarrow> bool" where
  "has_attrs G v \<longleftrightarrow> (case map_of (nodes G) v of Some (Some a) \<Rightarrow> True | _ \<Rightarrow> False)"

text \<open>
  A graph as networkx keeps it and the builder fills it from complete data: every node
  has a successor dictionary, every successor is a node with a successor dictionary and
  stop attributes, and every edge carries the attributes the search reads.
\<close>

definition well_formed :: "graph \<Rightarrow> bool" where
  "well_formed G \<longleftrightarrow>
     list_all (\<lambda>(n, a). map_of (adj G) n \<noteq> None) (nodes G) \<and>
     list_all (\<lambda>(u, nbrs).
        list_all (\<lambda>(v, ed). edge_data_ok ed \<and> map_of (adj G) v \<noteq> None \<and> has_attrs G v) nbrs)
       (adj G)"

text \<open>Every edge takes time: a trip segment arrives after it departs, a transfer lasts.\<close>

definition positive_edge :: "edge_attrs \<Rightarrow> bool" where
  "positive_edge e \<longleftrightarrow>
     (if transfer e = Some True then (case duration e of Some t \<Rightarrow> 0 < t | None \<Rightarrow> True)
      else (case departure_time e of
              Some dp \<Rightarrow> (case arrival_time e of Some ar \<Rightarrow> dp < ar | None \<Rightarrow> True)
            | None \<Rightarrow> True))"

definition positive_durations :: "graph \<Rightarrow> bool" where
  "positive_durations G \<longleftrightarrow>
     list_all (\<lambda>(u, nbrs). list_all (\<lambda>(v, ed). list_all positive_edge (edges_in ed)) nbrs) (adj G)"

text \<open>No edge goes back in time.\<close>

definition nonneg_edge :: "edge_attrs \<Rightarrow> bool" where
  "nonneg_edge e \<longleftrightarrow>
     (if transfer e = Some True then (case duration e of Some t \<Rightarrow> 0 \<le> t | None \<Rightarrow> True)
      else (case departure_time e of
              Some dp \<Rightarrow> (case arrival_time e of Some ar \<Rightarrow> dp \<le> ar | None \<Rightarrow> True)
            | None \<Rightarrow> True))"

definition nonneg_durations :: "graph \<Rightarrow> bool" where
  "nonneg_durations G \<longleftrightarrow>
     list_all (\<lambda>(u, nbrs). list_all (\<lambda>(v, ed). list_all nonneg_edge (edges_in ed)) nbrs) (adj G)"

text \<open>A trip segment from A to B that departs and arrives at 09:00:00.\<close>

definition instant_graph :: graph where
  "instant_graph =
     \<lparr>nodes = [(''A'', named ''Alpha''), (''B'', named ''Beta'')],
      adj = [(''A'', [(''B'', AttrDict (trip_segment 32400 32400))]), (''B'', [])]\<rparr>"

text \<open>
  A long ride from A to X (23:50:00 to 30:00:00), a short one from A to Y (23:50:00 to
  24:15:00), and a segment from X to Y as the builder makes it from a departure at
  30:00:00 and a raw arrival of 00:10:00.
\<close>

definition late_graph :: graph where
  "late_graph =
     \<lparr>nodes = [(''A'', named ''Alpha''), (''X'', named ''Xi''), (''Y'', named ''Upsilon'')],
      adj = [(''A'', [(''X'', AttrDict (trip_segment 85800 108000)),
                      (''Y'', AttrDict (trip_segment 85800 87300))]),
             (''X'', [(''Y'', AttrDict (trip_segment 108000 87000))]),
             (''Y'', [])]\<rparr>"

definition instant_graphs :: "string \<Rightarrow> graph option" where
  "instant_graphs = [''weekday'' \<mapsto> instant_graph]"

definition late_graphs :: "string \<Rightarrow> graph option" where
  "late_graphs = [''weekday'' \<mapsto> late_graph]"

definition stop_B_at_once :: reachable_stop where
  "stop_B_at_once = \<lparr>stop_name = ''Beta'', lat = 48, lon = 11, stop_id = ''B'',
                     travel_time_minutes = 0, num_transfers = 0\<rparr>"

text \<open>A best connection or arrival record, kept when it is within the budget \<open>m\<close> and dropped otherwise.\<close>

definition cut :: "int \<Rightarrow> int \<Rightarrow> (int \<times> int) option \<Rightarrow> (int \<times> int) option" where
  "cut d m best =
     (case best of None \<Rightarrow> None | Some (a, k) \<Rightarrow> if a - d \<le> m then Some (a, k) else None)"

section \<open>Reasoning about the search loop\<close>

declare search.simps [simp del]

lemma search_Cons:
  "search G d m ea (x # xs) ex =
     (if fst (snd (heap_min x xs)) \<in> ex
      then search G d m ea (remove1 (heap_min x xs) (x # xs)) ex
      else if fst (heap_min x xs) - d > m
      then search G d m ea (remove1 (heap_min x xs) (x # xs)) (insert (fst (snd (heap_min x xs))) ex)
      else (case neighbors G (fst (snd (heap_min x xs))) of
              Inl e \<Rightarrow> Inl e
            | Inr nbrs \<Rightarrow>
                (case expand d m (fst (heap_min x xs)) (snd (snd (heap_min x xs))) nbrs ea
                        (remove1 (heap_min x xs) (x # xs)) of
                   Inl e \<Rightarrow> Inl e
                 | Inr (ea', pq') \<Rightarrow> search G d m ea' pq' (insert (fst (snd (heap_min x xs))) ex))))"
  by (simp only: search.simps Let_def)

lemma search_induct [case_names Nil Cons]:
  assumes nil: "\<And>ea ex. P ea [] ex"
    and cons: "\<And>ea x xs ex.
      (fst (snd (heap_min x xs)) \<in> ex \<Longrightarrow> P ea (remove1 (heap_min x xs) (x # xs)) ex) \<Longrightarrow>
      (fst (snd (heap_min x xs)) \<notin> ex \<Longrightarrow> fst (heap_min x xs) - d > m \<Longrightarrow>
         P ea (remove1 (heap_min x xs) (x # xs)) (insert (fst (snd (heap_min x xs))) ex)) \<Longrightarrow>
      (\<And>nbrs ea' pq'. fst (snd (heap_min x xs)) \<notin> ex \<Longrightarrow> \<not> fst (heap_min x xs) - d > m \<Longrightarrow>
         neighbors G (fst (snd (heap_min x xs))) = Inr nbrs \<Longrightarrow>
         expand d m (fst (heap_min x xs)) (snd (snd (heap_min x xs))) nbrs ea
           (remove1 (heap_min x xs) (x # xs)) = Inr (ea', pq') \<Longrightarrow>
         P ea' pq' (insert (fst (snd (heap_min x xs))) ex)) \<Longrightarrow>
      P ea (x # xs) ex"
  shows "P ea pq ex"
proof -
  have "G' = G \<Longrightarrow> d' = d \<Longrightarrow> m' = m \<Longrightarrow> P ea pq ex" for G' d' m'
  proof (induction G' d' m' ea pq ex rule: search.induct)
    case (1 G' d' m' ea explored)
    show ?case by (rule nil)
  next
    case (2 G' d' m' ea x xs explored)
    note eqs = \<open>G' = G\<close> \<open>d' = d\<close> \<open>m' = m\<close>
    show ?case
    proof (rule cons, goal_cases)
      case 1
      then show ?case using "2.IH"(1) [OF refl refl refl refl refl] eqs by blast
    next
      case 2
      then show ?case using "2.IH"(2) [OF refl refl refl refl refl] eqs by blast
    next
      case (3 nbrs ea' pq')
      then show ?case using "2.IH"(3) [OF refl refl refl refl refl _ _ _ _ refl] eqs by blast
    qed
  qed
  then show ?thesis by simp
qed

subsection \<open>Every recorded arrival is within the budget\<close>

lemma set_update_subset: "set (AList.update k v al) \<subseteq> insert (k, v) (set al)"
  by (induction al) auto

lemma better_cases: "better a k best = best \<or> better a k best = Some (a, k)"
  by (auto simp: better_def split: option.splits)

lemma relax_edge_bound:
  assumes "relax_edge d m t n best e = Inr b"
  shows "b = best \<or> (\<exists>a k. b = Some (a, k) \<and> a - d \<le> m)"
proof (cases "transfer e = Some True")
  case True
  with assms obtain dur where dur: "duration e = Some dur"
    by (auto simp: relax_edge_def split: option.splits)
  show ?thesis
    using assms True dur better_cases [of "t + dur" "n + 1" best]
    by (auto simp: relax_edge_def Let_def split: if_splits)
next
  case False
  with assms obtain dp ar where da: "departure_time e = Some dp" "arrival_time e = Some ar"
    by (auto simp: relax_edge_def split: option.splits)
  show ?thesis
    using assms False da
      better_cases [of "ar + 24 * 3600" _ best] better_cases [of ar _ best]
    by (auto simp: relax_edge_def Let_def split: if_splits)
qed

lemma best_connection_bound:
  assumes "best_connection d m t n es best = Inr b"
    and "\<forall>a k. best = Some (a, k) \<longrightarrow> a - d \<le> m"
  shows "\<forall>a k. b = Some (a, k) \<longrightarrow> a - d \<le> m"
  using assms
proof (induction es arbitrary: best)
  case Nil
  then show ?case by simp
next
  case (Cons e es)
  from Cons.prems(1) obtain b1 where b1: "relax_edge d m t n best e = Inr b1"
    and rest: "best_connection d m t n es b1 = Inr b"
    by (auto split: sum.splits)
  from relax_edge_bound [OF b1] Cons.prems(2)
  have "\<forall>a k. b1 = Some (a, k) \<longrightarrow> a - d \<le> m" by auto
  with Cons.IH [OF rest] show ?case by blast
qed

lemma expand_bound:
  assumes "expand d m t n nbrs ea pq = Inr (ea1, pq1)"
    and "\<forall>(s, a, k) \<in> set ea. s = org \<or> a - d \<le> m"
  shows "\<forall>(s, a, k) \<in> set ea1. s = org \<or> a - d \<le> m"
  using assms
proof (induction nbrs arbitrary: ea pq)
  case Nil
  then show ?case by simp
next
  case (Cons nb nbrs)
  obtain v ed where nb: "nb = (v, ed)" by (cases nb)
  from Cons.prems(1) nb obtain es b where es: "edges_of ed = Inr es"
    and b: "best_connection d m t n es None = Inr b"
    by (auto split: sum.splits)
  show ?case
  proof (cases b)
    case None
    with Cons.prems nb es b Cons.IH show ?thesis by auto
  next
    case (Some ak)
    obtain a k where ak: "ak = (a, k)" by (cases ak)
    from best_connection_bound [OF b] Some ak have bound: "a - d \<le> m" by simp
    have upd: "\<forall>(s, a', k') \<in> set (AList.update v (a, k) ea). s = org \<or> a' - d \<le> m"
      using set_update_subset [of v "(a, k)" ea] Cons.prems(2) bound by auto
    show ?thesis
      using Cons.prems nb es b Some ak Cons.IH upd
      by (auto split: if_splits)
  qed
qed

lemma search_bound:
  assumes "search G d m ea pq ex = Inr ea'"
    and "\<forall>(s, a, k) \<in> set ea. s = org \<or> a - d \<le> m"
  shows "\<forall>(s, a, k) \<in> set ea'. s = org \<or> a - d \<le> m"
  using assms
proof (induction ea pq ex rule: search_induct [where G = G and d = d and m = m])
  case (Nil ea ex)
  then show ?case by (simp add: search.simps)
next
  case (Cons ea x xs ex)
  show ?case
  proof (cases "fst (snd (heap_min x xs)) \<in> ex")
    case True
    with Cons.prems Cons.IH(1) show ?thesis by (simp add: search_Cons)
  next
    case out: False
    show ?thesis
    proof (cases "fst (heap_min x xs) - d > m")
      case True
      with out Cons.prems Cons.IH(2) show ?thesis by (simp add: search_Cons)
    next
      case False
      from Cons.prems(1) out False obtain nbrs ea1 pq1
        where nb: "neighbors G (fst (snd (heap_min x xs))) = Inr nbrs"
          and ex: "expand d m (fst (heap_min x xs)) (snd (snd (heap_min x xs))) nbrs ea
                     (remove1 (heap_min x xs) (x # xs)) = Inr (ea1, pq1)"
          and rest: "search G d m ea1 pq1 (insert (fst (snd (heap_min x xs))) ex) = Inr ea'"
        by (auto simp: search_Cons split: sum.splits)
      from expand_bound [OF ex Cons.prems(2)]
      show ?thesis using Cons.IH(3) [OF out False nb ex rest] by blast
    qed
  qed
qed

lemma build_results_set:
  assumes "build_results G org d ea = Inr rs" and "r \<in> set rs"
  shows "\<exists>s a k. (s, a, k) \<in> set ea \<and> s \<noteq> org \<and> stop_id r = s
           \<and> travel_time_minutes r = round1_minutes (a - d) \<and> num_transfers r = k"
  using assms
proof (induction ea arbitrary: rs)
  case Nil
  then show ?case by simp
next
  case (Cons e ea)
  obtain s a k where e: "e = (s, a, k)" by (cases e)
  show ?case
  proof (cases "s = org")
    case True
    with Cons e show ?thesis by auto
  next
    case False
    with Cons.prems(1) e obtain rs' sd where sd: "map_of (nodes G) s = Some (Some sd)"
      and rs': "build_results G org d ea = Inr rs'"
      and rs: "rs = \<lparr>stop_name = stop_name sd, lat = lat sd, lon = lon sd, stop_id = s,
                     travel_time_minutes = round1_minutes (a - d), num_transfers = k\<rparr> # rs'"
      by (auto split: option.splits sum.splits)
    from Cons.prems(2) rs consider "r \<in> set rs'"
      | "r = \<lparr>stop_name = stop_name sd, lat = lat sd, lon = lon sd, stop_id = s,
                     travel_time_minutes = round1_minutes (a - d), num_transfers = k\<rparr>"
      by auto
    then show ?thesis
    proof cases
      case 1
      from Cons.IH [OF rs' 1] show ?thesis by auto
    next
      case 2
      with e False show ?thesis by auto
    qed
  qed
qed

lemma round1_minutes_mono: "x \<le> y \<Longrightarrow> round1_minutes x \<le> round1_minutes y"
proof (cases "x = y")
  case True
  then show ?thesis by simp
next
  case False
  assume "x \<le> y"
  with False have xy: "x < y" by simp
  define above where "above z = (if 0 \<le> z then half_up z else \<not> half_up (- z))" for z :: int
  define f where "f z = (if z mod 6 < 3 then z div 6 else if z mod 6 > 3 then z div 6 + 1
                        else if above z then z div 6 + 1 else z div 6)" for z :: int
  have q: "x div 6 \<le> y div 6" using xy by (intro zdiv_mono1) simp_all
  have fx: "f x \<le> x div 6 + 1" and fy: "y div 6 \<le> f y"
    by (simp_all add: f_def)
  have "f x \<le> f y"
  proof (cases "x div 6 = y div 6")
    case True
    have "x mod 6 < y mod 6"
      using xy True by (metis add_less_cancel_left mult_div_mod_eq)
    with True show ?thesis by (auto simp: f_def)
  next
    case False
    with q fx fy show ?thesis by linarith
  qed
  then have le: "(of_int (f x) :: rat) / 10 \<le> of_int (f y) / 10" by simp
  have r: "round1_minutes z = of_int (f z) / 10" for z
    unfolding round1_minutes_def Let_def f_def above_def by (rule refl)
  show ?thesis
    unfolding r by (rule le)
qed

lemma round1_minutes_0: "round1_minutes 0 = 0"
  by (simp add: round1_minutes_def)

subsection \<open>What a call of \<open>calculate_reachability\<close> that returns went through\<close>

lemma calculate_reachability_InrD:
  assumes "calculate_reachability graphs org dep b dt = Inr res"
  shows "\<exists>G d ea rs. graphs dt = Some G \<and> has_node G org \<and> hhmm_to_seconds dep = Inr d
           \<and> search G d (b * 60) [(org, d, 0)] [(d, org, 0)] {} = Inr ea
           \<and> build_results G org d ea = Inr rs \<and> res = sort_key travel_time_minutes rs"
  using assms
  by (auto simp: calculate_reachability_def split: option.splits if_splits sum.splits)

lemma calculate_reachability_InrI:
  assumes "graphs dt = Some G" "has_node G org" "hhmm_to_seconds dep = Inr d"
    and "search G d (b * 60) [(org, d, 0)] [(d, org, 0)] {} = Inr ea"
    and "build_results G org d ea = Inr rs"
  shows "calculate_reachability graphs org dep b dt = Inr (sort_key travel_time_minutes rs)"
  using assms by (simp add: calculate_reachability_def)

subsection \<open>Edges that take time, at budget zero\<close>

lemma relax_edge_positive:
  assumes "positive_edge e" and "relax_edge d 0 d n None e = Inr b"
  shows "b = None"
  using assms
  by (auto simp: relax_edge_def positive_edge_def Let_def split: if_splits option.splits)

lemma best_connection_positive:
  assumes "list_all positive_edge es" and "best_connection d 0 d n es None = Inr b"
  shows "b = None"
  using assms
proof (induction es)
  case Nil
  then show ?case by simp
next
  case (Cons e es)
  from Cons.prems obtain b1 where b1: "relax_edge d 0 d n None e = Inr b1"
    and rest: "best_connection d 0 d n es b1 = Inr b"
    by (auto split: sum.splits)
  from relax_edge_positive [OF _ b1] Cons.prems(1) have "b1 = None" by simp
  with Cons.IH rest Cons.prems(1) show ?case by simp
qed

lemma edges_of_subset: "edges_of ed = Inr es \<Longrightarrow> set es \<subseteq> set (edges_in ed)"
  by (auto simp: edges_of_def edges_in_def split: edge_data.splits if_splits)

lemma expand_positive:
  assumes "list_all (\<lambda>(v, ed). list_all positive_edge (edges_in ed)) nbrs"
    and "expand d 0 d n nbrs ea pq = Inr r"
  shows "r = (ea, pq)"
  using assms
proof (induction nbrs)
  case Nil
  then show ?case by simp
next
  case (Cons nb nbrs)
  obtain v ed where nb: "nb = (v, ed)" by (cases nb)
  from Cons.prems(2) nb obtain es b where es: "edges_of ed = Inr es"
    and b: "best_connection d 0 d n es None = Inr b"
    by (auto split: sum.splits)
  have "list_all positive_edge es"
    using edges_of_subset [OF es] Cons.prems(1) nb by (auto simp: list_all_iff)
  from best_connection_positive [OF this b] have "b = None" .
  with Cons nb es b show ?case by simp
qed

subsection \<open>A well-formed graph raises nothing\<close>

lemma relax_edge_ok: "edge_ok e \<Longrightarrow> \<exists>b. relax_edge d m t n best e = Inr b"
  by (auto simp: relax_edge_def edge_ok_def Let_def split: if_splits)

lemma best_connection_ok: "list_all edge_ok es \<Longrightarrow> \<exists>b. best_connection d m t n es best = Inr b"
proof (induction es arbitrary: best)
  case Nil
  show ?case by simp
next
  case (Cons e es)
  then obtain b1 where "relax_edge d m t n best e = Inr b1"
    using relax_edge_ok [of e d m t n best] by auto
  with Cons show ?case by simp
qed

lemma edges_of_ok: "edge_data_ok ed \<Longrightarrow> \<exists>es. edges_of ed = Inr es \<and> list_all edge_ok es"
  by (auto simp: edge_data_ok_def edges_of_def no_attrs_def split: edge_data.splits)

lemma expand_ok:
  assumes "list_all (\<lambda>(v, ed). edge_data_ok ed \<and> map_of (adj G) v \<noteq> None \<and> has_attrs G v) nbrs"
    and "\<forall>(s, a, k) \<in> set ea. s = org \<or> has_attrs G s"
    and "\<forall>(t, s, k) \<in> set pq. map_of (adj G) s \<noteq> None"
  shows "\<exists>ea1 pq1. expand d m t n nbrs ea pq = Inr (ea1, pq1)
           \<and> (\<forall>(s, a, k) \<in> set ea1. s = org \<or> has_attrs G s)
           \<and> (\<forall>(t, s, k) \<in> set pq1. map_of (adj G) s \<noteq> None)"
  using assms
proof (induction nbrs arbitrary: ea pq)
  case Nil
  then show ?case by simp
next
  case (Cons nb nbrs)
  obtain v ed where nb: "nb = (v, ed)" by (cases nb)
  from Cons.prems(1) nb have ok: "edge_data_ok ed" "map_of (adj G) v \<noteq> None" "has_attrs G v"
    and rest: "list_all (\<lambda>(v, ed). edge_data_ok ed \<and> map_of (adj G) v \<noteq> None \<and> has_attrs G v) nbrs"
    by auto
  from edges_of_ok [OF ok(1)] obtain es where es: "edges_of ed = Inr es" "list_all edge_ok es"
    by auto
  from best_connection_ok [OF es(2)] obtain b where b: "best_connection d m t n es None = Inr b"
    by blast
  show ?case
  proof (cases b)
    case None
    with Cons.IH [OF rest Cons.prems(2,3)] nb es b show ?thesis by simp
  next
    case (Some ak)
    obtain a k where ak: "ak = (a, k)" by (cases ak)
    have ea': "\<forall>(s, a', k') \<in> set (AList.update v (a, k) ea). s = org \<or> has_attrs G s"
      using set_update_subset [of v "(a, k)" ea] Cons.prems(2) ok(3) by auto
    have pq': "\<forall>(t, s, k) \<in> set (pq @ [(a, v, k)]). map_of (adj G) s \<noteq> None"
      using Cons.prems(3) ok(2) by auto
    show ?thesis
      using Cons.IH [OF rest ea' pq'] Cons.IH [OF rest Cons.prems(2,3)] nb es b Some ak
      by (simp split: if_splits)
  qed
qed

lemma search_ok:
  assumes wf: "well_formed G"
    and "\<forall>(s, a, k) \<in> set ea. s = org \<or> has_attrs G s"
    and "\<forall>(t, s, k) \<in> set pq. map_of (adj G) s \<noteq> None"
  shows "\<exists>ea'. search G d m ea pq ex = Inr ea' \<and> (\<forall>(s, a, k) \<in> set ea'. s = org \<or> has_attrs G s)"
  using assms(2,3)
proof (induction ea pq ex rule: search_induct [where G = G and d = d and m = m])
  case (Nil ea ex)
  then show ?case by (simp add: search.simps)
next
  case (Cons ea x xs ex)
  let ?cur = "heap_min x xs"
  let ?pq = "remove1 ?cur (x # xs)"
  have pq: "\<forall>(t, s, k) \<in> set ?pq. map_of (adj G) s \<noteq> None"
    using Cons.prems(2) set_remove1_subset [of ?cur "x # xs"] by blast
  show ?case
  proof (cases "fst (snd ?cur) \<in> ex")
    case True
    with Cons.IH(1) [OF True Cons.prems(1) pq] show ?thesis by (simp add: search_Cons)
  next
    case out: False
    show ?thesis
    proof (cases "fst ?cur - d > m")
      case True
      with out Cons.IH(2) [OF out True Cons.prems(1) pq] show ?thesis by (simp add: search_Cons)
    next
      case False
      have "?cur \<in> set (x # xs)" by (rule heap_min_in)
      with Cons.prems(2) have "map_of (adj G) (fst (snd ?cur)) \<noteq> None"
        by (cases ?cur) auto
      then obtain nbrs where nbrs: "map_of (adj G) (fst (snd ?cur)) = Some nbrs" by auto
      then have nb: "neighbors G (fst (snd ?cur)) = Inr nbrs" by (simp add: neighbors_def)
      from nbrs have "(fst (snd ?cur), nbrs) \<in> set (adj G)" by (rule map_of_SomeD)
      with wf have ok: "list_all (\<lambda>(v, ed). edge_data_ok ed \<and> map_of (adj G) v \<noteq> None
                          \<and> has_attrs G v) nbrs"
        by (auto simp: well_formed_def list_all_iff)
      from expand_ok [OF ok Cons.prems(1) pq, of d m "fst ?cur" "snd (snd ?cur)"]
      obtain ea1 pq1 where ex: "expand d m (fst ?cur) (snd (snd ?cur)) nbrs ea ?pq = Inr (ea1, pq1)"
        and inv: "\<forall>(s, a, k) \<in> set ea1. s = org \<or> has_attrs G s"
          "\<forall>(t, s, k) \<in> set pq1. map_of (adj G) s \<noteq> None"
        by blast
      from Cons.IH(3) [OF out False nb ex inv] out False nb ex
      show ?thesis by (simp add: search_Cons)
    qed
  qed
qed

lemma build_results_ok:
  assumes "\<forall>(s, a, k) \<in> set ea. s = org \<or> has_attrs G s"
  shows "\<exists>rs. build_results G org d ea = Inr rs"
  using assms
proof (induction ea)
  case Nil
  show ?case by simp
next
  case (Cons e ea)
  obtain s a k where e: "e = (s, a, k)" by (cases e)
  from Cons obtain rs where rs: "build_results G org d ea = Inr rs" by auto
  show ?case
  proof (cases "s = org")
    case True
    with e rs show ?thesis by simp
  next
    case False
    with Cons.prems e have "has_attrs G s" by auto
    then obtain sd where "map_of (nodes G) s = Some (Some sd)"
      by (auto simp: has_attrs_def split: option.splits)
    with e rs False show ?thesis by simp
  qed
qed

lemma well_formed_returns:
  assumes "graphs dt = Some G" "has_node G org" "well_formed G" "hhmm_to_seconds dep = Inr d"
  shows "\<exists>res. calculate_reachability graphs org dep b dt = Inr res"
proof -
  from assms(2) obtain a where "(org, a) \<in> set (nodes G)"
    by (auto simp: has_node_def dest: map_of_SomeD)
  with assms(3) have adj: "map_of (adj G) org \<noteq> None"
    by (auto simp: well_formed_def list_all_iff)
  from search_ok [OF assms(3), of "[(org, d, 0)]" org "[(d, org, 0)]" d "b * 60" "{}"] adj
  obtain ea where ea: "search G d (b * 60) [(org, d, 0)] [(d, org, 0)] {} = Inr ea"
    and inv: "\<forall>(s, a, k) \<in> set ea. s = org \<or> has_attrs G s"
    by auto
  from build_results_ok [OF inv] obtain rs where "build_results G org d ea = Inr rs" by blast
  with assms(1,2,4) ea show ?thesis by (simp add: calculate_reachability_def)
qed

subsection \<open>The queue as a multiset\<close>

lemma expand_append:
  "expand d m t n nbrs ea (pq @ acc) =
     (case expand d m t n nbrs ea acc of
        Inl e \<Rightarrow> Inl e
      | Inr (ea1, new) \<Rightarrow> Inr (ea1, pq @ new))"
proof (induction nbrs arbitrary: ea acc)
  case Nil
  show ?case by simp
next
  case (Cons nb nbrs)
  obtain v ed where nb: "nb = (v, ed)" by (cases nb)
  show ?case
    using Cons.IH [of _ "acc @ [_]"] Cons.IH [of _ acc]
    by (simp add: nb split: sum.splits option.splits prod.splits)
qed

lemma expand_from_empty:
  "expand d m t n nbrs ea pq =
     (case expand d m t n nbrs ea [] of
        Inl e \<Rightarrow> Inl e
      | Inr (ea1, new) \<Rightarrow> Inr (ea1, pq @ new))"
  using expand_append [of d m t n nbrs ea pq "[]"] by simp

lemma heap_min_mset:
  assumes "mset (x # xs) = mset (y # ys)"
  shows "heap_min x xs = heap_min y ys"
proof -
  from assms have "set (x # xs) = set (y # ys)" by (rule mset_eq_setD)
  then show ?thesis by (simp only: heap_min_Min)
qed

lemma search_mset:
  "mset pq = mset pq' \<Longrightarrow> search G d m ea pq ex = search G d m ea pq' ex"
proof (induction ea pq ex arbitrary: pq' rule: search_induct [where G = G and d = d and m = m])
  case (Nil ea ex)
  then show ?case by simp
next
  case (Cons ea x xs ex)
  from Cons.prems obtain y ys where pq': "pq' = y # ys" by (cases pq') auto
  let ?cur = "heap_min x xs"
  let ?p = "remove1 ?cur (x # xs)"
  let ?q = "remove1 ?cur (y # ys)"
  have cur: "heap_min y ys = ?cur"
    using Cons.prems pq' heap_min_mset [of x xs y ys] by simp
  have rem: "mset ?p = mset ?q"
    using Cons.prems pq' by (simp only: mset_remove1)
  note unf = search_Cons [of G d m ea x xs ex] search_Cons [of G d m ea y ys ex, unfolded cur]
  show ?case
  proof (cases "fst (snd ?cur) \<in> ex")
    case True
    from Cons.IH(1) [OF True rem] True show ?thesis
      unfolding pq' unf by (simp del: remove1.simps)
  next
    case out: False
    show ?thesis
    proof (cases "fst ?cur - d > m")
      case True
      from Cons.IH(2) [OF out True rem] out True show ?thesis
        unfolding pq' unf by (simp del: remove1.simps)
    next
      case False
      show ?thesis
      proof (cases "neighbors G (fst (snd ?cur))")
        case (Inl e)
        with out False show ?thesis
          unfolding pq' unf by (simp del: remove1.simps)
      next
        case (Inr nbrs)
        show ?thesis
        proof (cases "expand d m (fst ?cur) (snd (snd ?cur)) nbrs ea []")
          case (Inl e)
          then have "expand d m (fst ?cur) (snd (snd ?cur)) nbrs ea ?p = Inl e"
            and "expand d m (fst ?cur) (snd (snd ?cur)) nbrs ea ?q = Inl e"
            by (simp_all add: expand_from_empty [of _ _ _ _ _ _ ?p]
                expand_from_empty [of _ _ _ _ _ _ ?q] del: remove1.simps)
          with out False Inr show ?thesis
            unfolding pq' unf by (simp del: remove1.simps)
        next
          case push: (Inr r)
          obtain ea1 new where r: "r = (ea1, new)" by (cases r)
          have e1: "expand d m (fst ?cur) (snd (snd ?cur)) nbrs ea ?p = Inr (ea1, ?p @ new)"
            and e2: "expand d m (fst ?cur) (snd (snd ?cur)) nbrs ea ?q = Inr (ea1, ?q @ new)"
            using push r
            by (simp_all add: expand_from_empty [of _ _ _ _ _ _ ?p]
                expand_from_empty [of _ _ _ _ _ _ ?q] del: remove1.simps)
          have "mset (?p @ new) = mset (?q @ new)"
            using rem by (simp del: remove1.simps)
          from Cons.IH(3) [OF out False Inr e1 this] out False Inr e1 e2
          show ?thesis
            unfolding pq' unf by (simp del: remove1.simps)
        qed
      qed
    qed
  qed
qed

subsection \<open>A smaller budget sees the part of the search that is within it\<close>

lemma cut_None [simp]: "cut d m None = None"
  by (simp add: cut_def)

lemma cut_Some: "cut d m (Some (a, k)) = (if a - d \<le> m then Some (a, k) else None)"
  by (simp add: cut_def)

lemma cut_better_small: "a - d \<le> m \<Longrightarrow> cut d m (better a k b) = better a k (cut d m b)"
  by (auto simp: cut_def better_def split: option.splits)

lemma cut_better_big: "\<not> a - d \<le> m \<Longrightarrow> cut d m (better a k b) = cut d m b"
  by (auto simp: cut_def better_def split: option.splits)

lemma relax_edge_sim:
  assumes "m1 \<le> m2" and "relax_edge d m2 t n b2 e = Inr r2"
  shows "relax_edge d m1 t n (cut d m1 b2) e = Inr (cut d m1 r2)"
proof (cases "transfer e = Some True")
  case True
  with assms(2) obtain dur where dur: "duration e = Some dur"
    by (auto simp: relax_edge_def split: option.splits)
  show ?thesis
    using assms True dur cut_better_small [of "t + dur" d m1 "n + 1" b2]
      cut_better_big [of "t + dur" d m1 "n + 1" b2]
    by (auto simp: relax_edge_def Let_def split: if_splits)
next
  case False
  with assms(2) obtain dp ar where da: "departure_time e = Some dp" "arrival_time e = Some ar"
    by (auto simp: relax_edge_def split: option.splits)
  show ?thesis
    using assms False da
      cut_better_small [of ar d m1 _ b2] cut_better_big [of ar d m1 _ b2]
      cut_better_small [of "ar + 24 * 3600" d m1 _ b2] cut_better_big [of "ar + 24 * 3600" d m1 _ b2]
    by (auto simp: relax_edge_def Let_def split: if_splits)
qed

lemma best_connection_sim:
  assumes "m1 \<le> m2" and "best_connection d m2 t n es b2 = Inr r2"
  shows "best_connection d m1 t n es (cut d m1 b2) = Inr (cut d m1 r2)"
  using assms(2)
proof (induction es arbitrary: b2)
  case Nil
  then show ?case by simp
next
  case (Cons e es)
  from Cons.prems obtain b where b: "relax_edge d m2 t n b2 e = Inr b"
    and rest: "best_connection d m2 t n es b = Inr r2"
    by (auto split: sum.splits)
  from relax_edge_sim [OF assms(1) b] Cons.IH [OF rest] show ?case by simp
qed

lemma expand_sim:
  assumes le: "m1 \<le> m2"
    and "\<forall>s. map_of ea1 s = cut d m1 (map_of ea2 s)"
    and "expand d m2 t n nbrs ea2 pq2 = Inr (ea2', pq2')"
  shows "\<exists>ea1'. expand d m1 t n nbrs ea1 (filter (\<lambda>e. fst e - d \<le> m1) pq2)
                   = Inr (ea1', filter (\<lambda>e. fst e - d \<le> m1) pq2')
           \<and> (\<forall>s. map_of ea1' s = cut d m1 (map_of ea2' s))"
  using assms(2,3)
proof (induction nbrs arbitrary: ea1 ea2 pq2)
  case Nil
  then show ?case by simp
next
  case (Cons nb nbrs)
  obtain v ed where nb: "nb = (v, ed)" by (cases nb)
  from Cons.prems(2) nb obtain es b2 where es: "edges_of ed = Inr es"
    and b2: "best_connection d m2 t n es None = Inr b2"
    by (auto split: sum.splits)
  from best_connection_sim [OF le b2]
  have b1: "best_connection d m1 t n es None = Inr (cut d m1 b2)" by simp
  show ?case
  proof (cases b2)
    case None
    with Cons.prems nb es b2 have "expand d m2 t n nbrs ea2 pq2 = Inr (ea2', pq2')" by simp
    from Cons.IH [OF Cons.prems(1) this] nb es b1 None show ?thesis by simp
  next
    case (Some ak)
    obtain a k where ak: "ak = (a, k)" by (cases ak)
    let ?upd = "case map_of ea2 v of None \<Rightarrow> True | Some (known, _) \<Rightarrow> a < known"
    show ?thesis
    proof (cases "a - d \<le> m1")
      case small: True
      have same: "(case map_of ea1 v of None \<Rightarrow> True | Some (known, _) \<Rightarrow> a < known) = ?upd"
        using Cons.prems(1) [rule_format, of v] small
        by (auto simp: cut_def split: option.splits if_splits)
      show ?thesis
      proof (cases ?upd)
        case True
        with Cons.prems(2) nb es b2 Some ak
        have run: "expand d m2 t n nbrs (AList.update v (a, k) ea2) (pq2 @ [(a, v, k)])
                     = Inr (ea2', pq2')"
          by simp
        have rel: "\<forall>s. map_of (AList.update v (a, k) ea1) s
                        = cut d m1 (map_of (AList.update v (a, k) ea2) s)"
          using Cons.prems(1) small by (simp add: update_conv' cut_Some)
        from Cons.IH [OF rel run] nb es b1 Some ak small same True show ?thesis
          by (simp add: cut_Some)
      next
        case False
        with Cons.prems(2) nb es b2 Some ak
        have run: "expand d m2 t n nbrs ea2 pq2 = Inr (ea2', pq2')" by simp
        from Cons.IH [OF Cons.prems(1) run] nb es b1 Some ak small same False show ?thesis
          by (simp add: cut_Some)
      qed
    next
      case big: False
      show ?thesis
      proof (cases ?upd)
        case True
        with Cons.prems(2) nb es b2 Some ak
        have run: "expand d m2 t n nbrs (AList.update v (a, k) ea2) (pq2 @ [(a, v, k)])
                     = Inr (ea2', pq2')"
          by simp
        have "map_of ea1 v = None"
          using Cons.prems(1) [rule_format, of v] True big
          by (auto simp: cut_def split: option.splits if_splits)
        with Cons.prems(1) big
        have rel: "\<forall>s. map_of ea1 s = cut d m1 (map_of (AList.update v (a, k) ea2) s)"
          by (simp add: update_conv' cut_Some)
        from Cons.IH [OF rel run] nb es b1 Some ak big show ?thesis
          by (simp add: cut_Some)
      next
        case False
        with Cons.prems(2) nb es b2 Some ak
        have run: "expand d m2 t n nbrs ea2 pq2 = Inr (ea2', pq2')" by simp
        from Cons.IH [OF Cons.prems(1) run] nb es b1 Some ak big show ?thesis
          by (simp add: cut_Some)
      qed
    qed
  qed
qed

subsection \<open>Records only improve\<close>

lemma expand_monotone:
  assumes "expand d m t n nbrs ea pq = Inr (ea', pq')" and "map_of ea s = Some (a, k)"
  shows "\<exists>a' k'. map_of ea' s = Some (a', k') \<and> a' \<le> a"
  using assms
proof (induction nbrs arbitrary: ea pq a k)
  case Nil
  then show ?case by auto
next
  case (Cons nb nbrs)
  obtain v ed where nb: "nb = (v, ed)" by (cases nb)
  from Cons.prems(1) nb obtain es b where es: "edges_of ed = Inr es"
    and b: "best_connection d m t n es None = Inr b"
    by (auto split: sum.splits)
  show ?case
  proof (cases b)
    case None
    with Cons.prems nb es b Cons.IH show ?thesis by simp
  next
    case (Some ak)
    obtain a2 k2 where ak: "ak = (a2, k2)" by (cases ak)
    show ?thesis
    proof (cases "case map_of ea v of None \<Rightarrow> True | Some (known, _) \<Rightarrow> a2 < known")
      case True
      with Cons.prems(1) nb es b Some ak
      have run: "expand d m t n nbrs (AList.update v (a2, k2) ea) (pq @ [(a2, v, k2)])
                   = Inr (ea', pq')"
        by simp
      show ?thesis
      proof (cases "s = v")
        case True
        with \<open>case map_of ea v of None \<Rightarrow> True | Some (known, _) \<Rightarrow> a2 < known\<close> Cons.prems(2)
        have "a2 < a" by simp
        moreover have "map_of (AList.update v (a2, k2) ea) s = Some (a2, k2)"
          using True by (simp add: update_conv')
        from Cons.IH [OF run this] obtain a' k' where "map_of ea' s = Some (a', k')" "a' \<le> a2"
          by blast
        ultimately show ?thesis by auto
      next
        case False
        with Cons.prems(2) have "map_of (AList.update v (a2, k2) ea) s = Some (a, k)"
          by (simp add: update_conv')
        from Cons.IH [OF run this] show ?thesis .
      qed
    next
      case False
      with Cons.prems nb es b Some ak Cons.IH show ?thesis by simp
    qed
  qed
qed

lemma search_monotone:
  assumes "search G d m ea pq ex = Inr ea'" and "map_of ea s = Some (a, k)"
  shows "\<exists>a' k'. map_of ea' s = Some (a', k') \<and> a' \<le> a"
  using assms
proof (induction ea pq ex arbitrary: a k rule: search_induct [where G = G and d = d and m = m])
  case (Nil ea ex)
  then show ?case by (simp add: search.simps)
next
  case (Cons ea x xs ex)
  show ?case
  proof (cases "fst (snd (heap_min x xs)) \<in> ex")
    case True
    with Cons.prems Cons.IH(1) show ?thesis by (simp add: search_Cons)
  next
    case out: False
    show ?thesis
    proof (cases "fst (heap_min x xs) - d > m")
      case True
      with out Cons.prems Cons.IH(2) show ?thesis by (simp add: search_Cons)
    next
      case False
      from Cons.prems(1) out False obtain nbrs ea1 pq1
        where nb: "neighbors G (fst (snd (heap_min x xs))) = Inr nbrs"
          and ex: "expand d m (fst (heap_min x xs)) (snd (snd (heap_min x xs))) nbrs ea
                     (remove1 (heap_min x xs) (x # xs)) = Inr (ea1, pq1)"
          and rest: "search G d m ea1 pq1 (insert (fst (snd (heap_min x xs))) ex) = Inr ea'"
        by (auto simp: search_Cons split: sum.splits)
      from expand_monotone [OF ex Cons.prems(2)] obtain a1 k1
        where a1: "map_of ea1 s = Some (a1, k1)" "a1 \<le> a" by blast
      from Cons.IH(3) [OF out False nb ex rest a1(1)] a1(2) show ?thesis by force
    qed
  qed
qed

subsection \<open>Beyond the smaller budget, edges that do not go back in time stay beyond it\<close>

lemma relax_edge_late:
  assumes "nonneg_edge e" and "m1 < t - d" and "relax_edge d m2 t n best e = Inr b"
    and "cut d m1 best = None"
  shows "cut d m1 b = None"
proof (cases "transfer e = Some True")
  case True
  with assms(3) obtain dur where dur: "duration e = Some dur"
    by (auto simp: relax_edge_def split: option.splits)
  with assms(1) True have "0 \<le> dur" by (simp add: nonneg_edge_def)
  with assms(2) have "\<not> t + dur - d \<le> m1" by simp
  from cut_better_big [OF this] assms(3,4) True dur show ?thesis
    by (auto simp: relax_edge_def Let_def split: if_splits)
next
  case False
  with assms(3) obtain dp ar where da: "departure_time e = Some dp" "arrival_time e = Some ar"
    by (auto simp: relax_edge_def split: option.splits)
  with assms(1) False have le: "dp \<le> ar" by (simp add: nonneg_edge_def)
  show ?thesis
  proof (cases "dp < t - 24 * 3600")
    case wrap: True
    show ?thesis
    proof (cases "dp + 24 * 3600 \<ge> t")
      case True
      with le assms(2) have "\<not> ar + 24 * 3600 - d \<le> m1" by simp
      from cut_better_big [OF this] assms(3,4) False da wrap show ?thesis
        by (auto simp: relax_edge_def Let_def split: if_splits)
    next
      case gone: False
      with assms(3,4) False da wrap show ?thesis
        by (auto simp: relax_edge_def Let_def split: if_splits)
    qed
  next
    case nowrap: False
    show ?thesis
    proof (cases "dp \<ge> t")
      case True
      with le assms(2) have "\<not> ar - d \<le> m1" by simp
      from cut_better_big [OF this] assms(3,4) False da nowrap show ?thesis
        by (auto simp: relax_edge_def Let_def split: if_splits)
    next
      case gone: False
      with assms(3,4) False da nowrap show ?thesis
        by (auto simp: relax_edge_def Let_def split: if_splits)
    qed
  qed
qed

lemma best_connection_late:
  assumes "list_all nonneg_edge es" and "m1 < t - d"
    and "best_connection d m2 t n es best = Inr b" and "cut d m1 best = None"
  shows "cut d m1 b = None"
  using assms(1,3,4)
proof (induction es arbitrary: best)
  case Nil
  then show ?case by simp
next
  case (Cons e es)
  from Cons.prems(2) obtain b1 where b1: "relax_edge d m2 t n best e = Inr b1"
    and rest: "best_connection d m2 t n es b1 = Inr b"
    by (auto split: sum.splits)
  from Cons.prems(1) have e: "nonneg_edge e" and es: "list_all nonneg_edge es" by simp_all
  from relax_edge_late [OF e assms(2) b1 Cons.prems(3)] Cons.IH [OF es rest] show ?case
    by blast
qed

lemma expand_late:
  assumes "list_all (\<lambda>(v, ed). list_all nonneg_edge (edges_in ed)) nbrs" and "m1 < t - d"
    and "expand d m2 t n nbrs ea pq = Inr (ea', pq')"
  shows "(\<forall>s. cut d m1 (map_of ea' s) = cut d m1 (map_of ea s))
         \<and> (\<forall>e \<in> set pq'. e \<in> set pq \<or> m1 < fst e - d)"
  using assms(1,3)
proof (induction nbrs arbitrary: ea pq)
  case Nil
  then show ?case by simp
next
  case (Cons nb nbrs)
  obtain v ed where nb: "nb = (v, ed)" by (cases nb)
  from Cons.prems(2) nb obtain es b where es: "edges_of ed = Inr es"
    and b: "best_connection d m2 t n es None = Inr b"
    by (auto split: sum.splits)
  from Cons.prems(1) nb have rest: "list_all (\<lambda>(v, ed). list_all nonneg_edge (edges_in ed)) nbrs"
    by simp
  have "list_all nonneg_edge es"
    using edges_of_subset [OF es] Cons.prems(1) nb by (auto simp: list_all_iff)
  from best_connection_late [OF this assms(2) b] have late: "cut d m1 b = None" by simp
  show ?case
  proof (cases b)
    case None
    with Cons.prems(2) nb es b have "expand d m2 t n nbrs ea pq = Inr (ea', pq')" by simp
    from Cons.IH [OF rest this] show ?thesis .
  next
    case (Some ak)
    obtain a k where ak: "ak = (a, k)" by (cases ak)
    from late Some ak have big: "m1 < a - d" by (simp add: cut_Some split: if_splits)
    show ?thesis
    proof (cases "case map_of ea v of None \<Rightarrow> True | Some (known, _) \<Rightarrow> a < known")
      case True
      with Cons.prems(2) nb es b Some ak
      have run: "expand d m2 t n nbrs (AList.update v (a, k) ea) (pq @ [(a, v, k)]) = Inr (ea', pq')"
        by simp
      have "cut d m1 (map_of ea v) = None"
        using True big by (auto simp: cut_def split: option.splits)
      with big have "\<forall>s. cut d m1 (map_of (AList.update v (a, k) ea) s) = cut d m1 (map_of ea s)"
        by (simp add: update_conv' cut_Some)
      with Cons.IH [OF rest run] big show ?thesis by auto
    next
      case False
      with Cons.prems(2) nb es b Some ak have "expand d m2 t n nbrs ea pq = Inr (ea', pq')"
        by simp
      from Cons.IH [OF rest this] show ?thesis .
    qed
  qed
qed

lemma search_late:
  assumes nn: "nonneg_durations G"
    and "\<forall>e \<in> set pq. m1 < fst e - d"
    and "search G d m2 ea pq ex = Inr ea'"
  shows "\<forall>s. cut d m1 (map_of ea' s) = cut d m1 (map_of ea s)"
  using assms(2,3)
proof (induction ea pq ex rule: search_induct [where G = G and d = d and m = m2])
  case (Nil ea ex)
  then show ?case by (simp add: search.simps)
next
  case (Cons ea x xs ex)
  let ?cur = "heap_min x xs"
  let ?pq = "remove1 ?cur (x # xs)"
  have pq: "\<forall>e \<in> set ?pq. m1 < fst e - d"
    using Cons.prems(1) set_remove1_subset [of ?cur "x # xs"] by blast
  have cur: "m1 < fst ?cur - d"
    using Cons.prems(1) heap_min_in [of x xs] by blast
  show ?case
  proof (cases "fst (snd ?cur) \<in> ex")
    case True
    with Cons.prems(2) Cons.IH(1) [OF True pq] show ?thesis by (simp add: search_Cons)
  next
    case out: False
    show ?thesis
    proof (cases "fst ?cur - d > m2")
      case True
      with out Cons.prems(2) Cons.IH(2) [OF out True pq] show ?thesis by (simp add: search_Cons)
    next
      case False
      from Cons.prems(2) out False obtain nbrs ea1 pq1
        where nb: "neighbors G (fst (snd ?cur)) = Inr nbrs"
          and ex: "expand d m2 (fst ?cur) (snd (snd ?cur)) nbrs ea ?pq = Inr (ea1, pq1)"
          and rest: "search G d m2 ea1 pq1 (insert (fst (snd ?cur)) ex) = Inr ea'"
        by (auto simp: search_Cons split: sum.splits)
      from nb have "(fst (snd ?cur), nbrs) \<in> set (adj G)"
        by (auto simp: neighbors_def split: option.splits dest: map_of_SomeD)
      with nn have "list_all (\<lambda>(v, ed). list_all nonneg_edge (edges_in ed)) nbrs"
        by (fastforce simp: nonneg_durations_def list_all_iff)
      from expand_late [OF this cur ex]
      have keep: "\<forall>s. cut d m1 (map_of ea1 s) = cut d m1 (map_of ea s)"
        and pq1: "\<forall>e \<in> set pq1. m1 < fst e - d"
        using pq by auto
      from Cons.IH(3) [OF out False nb ex pq1 rest] keep show ?thesis by simp
    qed
  qed
qed

subsection \<open>The two runs side by side\<close>

lemma heap_min_filter:
  assumes "P (heap_min x xs)" and "filter P (x # xs) = y # ys"
  shows "heap_min y ys = heap_min x xs"
proof -
  have sub: "set (y # ys) \<subseteq> set (x # xs)"
    using assms(2) [symmetric] by (simp only: set_filter) blast
  have "heap_min x xs \<in> set (filter P (x # xs))"
    using assms(1) heap_min_in [of x xs] by (simp only: set_filter) blast
  then have mem: "heap_min x xs \<in> set (y # ys)" by (simp only: assms(2))
  have "Min (set (y # ys)) = heap_min x xs"
  proof (rule Min_eqI)
    show "finite (set (y # ys))" by simp
    show "heap_min x xs \<in> set (y # ys)" by (rule mem)
    fix e assume "e \<in> set (y # ys)"
    with sub have "e \<in> set (x # xs)" by blast
    then show "heap_min x xs \<le> e" unfolding heap_min_Min by (intro Min_le) simp_all
  qed
  then show ?thesis by (simp only: heap_min_Min)
qed

lemma heap_min_least: "e \<in> set (x # xs) \<Longrightarrow> fst (heap_min x xs) \<le> fst e"
proof -
  assume "e \<in> set (x # xs)"
  then have "heap_min x xs \<le> e" unfolding heap_min_Min by (intro Min_le) simp_all
  then show ?thesis by (auto simp: less_eq_prod_def)
qed

lemma search_sim:
  assumes le: "m1 \<le> m2"
    and "\<forall>s. map_of ea1 s = cut d m1 (map_of ea2 s)"
    and "search G d m2 ea2 pq2 ex = Inr ea2'"
  shows "\<exists>ea1' eaM pqM exM.
           search G d m1 ea1 (filter (\<lambda>e. fst e - d \<le> m1) pq2) ex = Inr ea1'
           \<and> (\<forall>s. map_of ea1' s = cut d m1 (map_of eaM s))
           \<and> search G d m2 eaM pqM exM = Inr ea2'
           \<and> (\<forall>e \<in> set pqM. m1 < fst e - d)"
  using assms(2,3)
proof (induction ea2 pq2 ex arbitrary: ea1 rule: search_induct [where G = G and d = d and m = m2])
  case (Nil ea2 ex)
  have "search G d m1 ea1 (filter (\<lambda>e. fst e - d \<le> m1) []) ex = Inr ea1"
    by (simp add: search.simps)
  with Nil show ?case by fastforce
next
  case (Cons ea2 x xs ex)
  let ?small = "\<lambda>e :: entry. fst e - d \<le> m1"
  let ?cur = "heap_min x xs"
  let ?p = "remove1 ?cur (x # xs)"
  show ?case
  proof (cases "?small ?cur")
    case False
    have "\<forall>e \<in> set (x # xs). m1 < fst e - d"
    proof
      fix e assume "e \<in> set (x # xs)"
      from heap_min_least [OF this] False show "m1 < fst e - d" by simp
    qed
    moreover from this have "filter ?small (x # xs) = []"
      by (simp only: filter_empty_conv) force
    then have "search G d m1 ea1 (filter ?small (x # xs)) ex = Inr ea1"
      by (simp only: search.simps)
    ultimately show ?thesis using Cons.prems by blast
  next
    case small: True
    then have "?cur \<in> set (filter ?small (x # xs))"
      using heap_min_in [of x xs] by (simp only: set_filter) blast
    then obtain y ys where f: "filter ?small (x # xs) = y # ys"
      by (cases "filter ?small (x # xs)") auto
    have cur: "heap_min y ys = ?cur"
      using small f by (rule heap_min_filter [where P = ?small])
    have rem: "remove1 ?cur (y # ys) = filter ?small ?p"
      using f by (simp only: filter_remove1)
    note unf1 = search_Cons [of G d m1 ea1 y ys ex, unfolded cur rem]
    note unf2 = search_Cons [of G d m2 ea2 x xs ex]
    show ?thesis
    proof (cases "fst (snd ?cur) \<in> ex")
      case True
      with Cons.prems(2) have "search G d m2 ea2 ?p ex = Inr ea2'"
        unfolding unf2 by simp
      from Cons.IH(1) [OF True Cons.prems(1) this] True show ?thesis
        unfolding f unf1 by simp
    next
      case out: False
      have in2: "\<not> fst ?cur - d > m2" and in1: "\<not> fst ?cur - d > m1"
        using small le by simp_all
      from Cons.prems(2) out in2 obtain nbrs ea2n pq2n
        where nb: "neighbors G (fst (snd ?cur)) = Inr nbrs"
          and ex: "expand d m2 (fst ?cur) (snd (snd ?cur)) nbrs ea2 ?p = Inr (ea2n, pq2n)"
          and rest: "search G d m2 ea2n pq2n (insert (fst (snd ?cur)) ex) = Inr ea2'"
        unfolding unf2 by (auto split: sum.splits)
      from expand_sim [OF le Cons.prems(1) ex] obtain ea1n
        where ex1: "expand d m1 (fst ?cur) (snd (snd ?cur)) nbrs ea1 (filter ?small ?p)
                      = Inr (ea1n, filter ?small pq2n)"
          and rel: "\<forall>s. map_of ea1n s = cut d m1 (map_of ea2n s)"
        by blast
      from Cons.IH(3) [OF out in2 nb ex rel rest] out in1 nb ex1 show ?thesis
        unfolding f unf1 by simp
    qed
  qed
qed

subsection \<open>From arrival records to results\<close>

lemma expand_distinct:
  assumes "expand d m t n nbrs ea pq = Inr (ea', pq')" and "distinct (map fst ea)"
  shows "distinct (map fst ea')"
  using assms
proof (induction nbrs arbitrary: ea pq)
  case Nil
  then show ?case by simp
next
  case (Cons nb nbrs)
  obtain v ed where nb: "nb = (v, ed)" by (cases nb)
  from Cons.prems(1) nb obtain es b where es: "edges_of ed = Inr es"
    and b: "best_connection d m t n es None = Inr b"
    by (auto split: sum.splits)
  show ?case
  proof (cases b)
    case None
    with Cons nb es b show ?thesis by simp
  next
    case (Some ak)
    obtain a k where ak: "ak = (a, k)" by (cases ak)
    have "distinct (map fst (AList.update v (a, k) ea))"
      using Cons.prems(2) by (rule distinct_update)
    with Cons nb es b Some ak show ?thesis by (simp split: if_splits)
  qed
qed

lemma search_distinct:
  assumes "search G d m ea pq ex = Inr ea'" and "distinct (map fst ea)"
  shows "distinct (map fst ea')"
  using assms
proof (induction ea pq ex rule: search_induct [where G = G and d = d and m = m])
  case (Nil ea ex)
  then show ?case by (simp add: search.simps)
next
  case (Cons ea x xs ex)
  show ?case
  proof (cases "fst (snd (heap_min x xs)) \<in> ex")
    case True
    with Cons.prems Cons.IH(1) show ?thesis by (simp add: search_Cons)
  next
    case out: False
    show ?thesis
    proof (cases "fst (heap_min x xs) - d > m")
      case True
      with out Cons.prems Cons.IH(2) show ?thesis by (simp add: search_Cons)
    next
      case False
      from Cons.prems(1) out False obtain nbrs ea1 pq1
        where nb: "neighbors G (fst (snd (heap_min x xs))) = Inr nbrs"
          and ex: "expand d m (fst (heap_min x xs)) (snd (snd (heap_min x xs))) nbrs ea
                     (remove1 (heap_min x xs) (x # xs)) = Inr (ea1, pq1)"
          and rest: "search G d m ea1 pq1 (insert (fst (snd (heap_min x xs))) ex) = Inr ea'"
        by (auto simp: search_Cons split: sum.splits)
      from Cons.IH(3) [OF out False nb ex rest expand_distinct [OF ex Cons.prems(2)]]
      show ?thesis .
    qed
  qed
qed

lemma build_results_complete:
  assumes "build_results G org d ea = Inr rs" and "(s, a, k) \<in> set ea" and "s \<noteq> org"
  shows "has_attrs G s
         \<and> (\<exists>r \<in> set rs. stop_id r = s \<and> travel_time_minutes r = round1_minutes (a - d))"
  using assms(1,2)
proof (induction ea arbitrary: rs)
  case Nil
  then show ?case by simp
next
  case (Cons e ea)
  obtain s' a' k' where e: "e = (s', a', k')" by (cases e)
  show ?case
  proof (cases "s' = org")
    case True
    with Cons e assms(3) show ?thesis by auto
  next
    case False
    with Cons.prems(1) e obtain rs' sd where sd: "map_of (nodes G) s' = Some (Some sd)"
      and rs': "build_results G org d ea = Inr rs'"
      and rs: "rs = \<lparr>stop_name = stop_name sd, lat = lat sd, lon = lon sd, stop_id = s',
                     travel_time_minutes = round1_minutes (a' - d), num_transfers = k'\<rparr> # rs'"
      by (auto split: option.splits sum.splits)
    from Cons.prems(2) e consider "(s, a, k) = (s', a', k')" | "(s, a, k) \<in> set ea" by auto
    then show ?thesis
    proof cases
      case 1
      with sd rs show ?thesis by (simp add: has_attrs_def)
    next
      case 2
      from Cons.IH [OF rs' 2] rs show ?thesis by auto
    qed
  qed
qed

text \<open>The arrival records of two budgets, from the state in which the search starts.\<close>

lemma search_budgets:
  assumes le: "m1 \<le> m2"
    and run2: "search G d m2 [(org, d, 0)] [(d, org, 0)] {} = Inr ea2"
  shows "\<exists>ea1. search G d m1 [(org, d, 0)] [(d, org, 0)] {} = Inr ea1
           \<and> (\<forall>s a k. map_of ea1 s = Some (a, k) \<longrightarrow>
                 (\<exists>a' k'. map_of ea2 s = Some (a', k') \<and> a' \<le> a))
           \<and> (nonneg_durations G \<longrightarrow>
                 (\<forall>s a k. s \<noteq> org \<longrightarrow> map_of ea1 s = Some (a, k) \<longrightarrow>
                    (\<exists>k'. map_of ea2 s = Some (a, k'))))"
proof (cases "0 \<le> m1")
  case False
  have hm: "heap_min (d, org, 0) [] = (d, org, 0)" by (simp add: heap_min_def)
  from False have run1: "search G d m1 [(org, d, 0)] [(d, org, 0)] {} = Inr [(org, d, 0)]"
    by (simp add: search_Cons hm search.simps)
  have "\<exists>a' k'. map_of ea2 s = Some (a', k') \<and> a' \<le> a"
    if "map_of [(org, d, 0 :: int)] s = Some (a, k)" for s a k
    using search_monotone [OF run2 that] .
  with run1 show ?thesis by (auto split: if_splits)
next
  case True
  let ?small = "\<lambda>e :: entry. fst e - d \<le> m1"
  have rel: "\<forall>s. map_of [(org, d, 0 :: int)] s = cut d m1 (map_of [(org, d, 0)] s)"
    using True by (simp add: cut_Some)
  have f: "filter ?small [(d, org, 0)] = [(d, org, 0)]"
    using True by simp
  from search_sim [OF le rel run2] obtain ea1 eaM pqM exM
    where run1: "search G d m1 [(org, d, 0)] [(d, org, 0)] {} = Inr ea1"
      and cutM: "\<forall>s. map_of ea1 s = cut d m1 (map_of eaM s)"
      and runM: "search G d m2 eaM pqM exM = Inr ea2"
      and late: "\<forall>e \<in> set pqM. m1 < fst e - d"
    unfolding f by blast
  have gen: "\<exists>a' k'. map_of ea2 s = Some (a', k') \<and> a' \<le> a"
    if "map_of ea1 s = Some (a, k)" for s a k
  proof -
    from that cutM have "map_of eaM s = Some (a, k)"
      by (auto simp: cut_def split: option.splits if_splits)
    from search_monotone [OF runM this] show ?thesis .
  qed
  have eq: "\<exists>k'. map_of ea2 s = Some (a, k')"
    if nn: "nonneg_durations G" and s: "map_of ea1 s = Some (a, k)" for s a k
  proof -
    from search_late [OF nn late runM] cutM s
    have "cut d m1 (map_of ea2 s) = Some (a, k)" by simp
    then show ?thesis by (auto simp: cut_def split: option.splits if_splits)
  qed
  from run1 gen eq show ?thesis by blast
qed

subsection \<open>Edges the builder adds\<close>

lemma int64_id: "- (2 ^ 63) \<le> x \<Longrightarrow> x < 2 ^ 63 \<Longrightarrow> int64 x = x"
  by (simp add: int64_def)

lemma time_to_seconds_NaN: "time_to_seconds NaN = Inr 0"
  by (simp add: time_to_seconds_def)

lemma apply_time_to_seconds_Inr:
  "apply_time_to_seconds cs = Inr ts \<Longrightarrow>
     length ts = length cs \<and> (\<forall>i < length cs. time_to_seconds (cs ! i) = Inr (ts ! i))"
proof (induction cs arbitrary: ts)
  case Nil
  then show ?case by simp
next
  case (Cons c cs)
  from Cons.prems obtain t ts' where t: "time_to_seconds c = Inr t"
      and ts': "apply_time_to_seconds cs = Inr ts'" and ts: "ts = t # ts'"
    by (auto split: sum.splits)
  from Cons.IH [OF ts'] t ts show ?case
    by (auto simp: nth_Cons split: nat.splits)
qed

lemma apply_time_to_seconds_Inl:
  "apply_time_to_seconds cs = Inl e \<Longrightarrow> \<exists>c \<in> set cs. c \<noteq> NaN \<and> time_to_seconds c = Inl e"
proof (induction cs)
  case Nil
  then show ?case by simp
next
  case (Cons c cs)
  show ?case
  proof (cases "time_to_seconds c")
    case (Inl e')
    with Cons.prems have "e' = e" by simp
    with Inl have "time_to_seconds c = Inl e" by simp
    moreover from this have "c \<noteq> NaN" by (auto simp: time_to_seconds_NaN)
    ultimately show ?thesis by auto
  next
    case (Inr t)
    with Cons.prems have "apply_time_to_seconds cs = Inl e"
      by (auto split: sum.splits)
    from Cons.IH [OF this] show ?thesis by auto
  qed
qed

lemma with_seconds_sel:
  "st_trip_id (with_seconds r d a) = st_trip_id r"
  "st_stop_id (with_seconds r d a) = st_stop_id r"
  "stop_sequence (with_seconds r d a) = stop_sequence r"
  "departure_time_sec (with_seconds r d a) = d"
  "arrival_time_sec (with_seconds r d a) = a"
  by (simp_all add: with_seconds_def stop_time_row.extend_def stop_time_sec.fields_def)

lemma convert_times_Inr:
  assumes "convert_times rows = Inr secs"
  shows "length secs = length rows"
    and "i < length rows \<Longrightarrow> st_trip_id (secs ! i) = st_trip_id (rows ! i)"
    and "i < length rows \<Longrightarrow> st_stop_id (secs ! i) = st_stop_id (rows ! i)"
    and "i < length rows \<Longrightarrow> stop_sequence (secs ! i) = stop_sequence (rows ! i)"
    and "i < length rows \<Longrightarrow>
           time_to_seconds (departure_time_str (rows ! i)) = Inr (departure_time_sec (secs ! i))"
    and "i < length rows \<Longrightarrow>
           time_to_seconds (arrival_time_str (rows ! i)) = Inr (arrival_time_sec (secs ! i))"
proof -
  from assms obtain deps arrs
    where deps: "apply_time_to_seconds (map departure_time_str rows) = Inr deps"
      and arrs: "apply_time_to_seconds (map arrival_time_str rows) = Inr arrs"
      and secs: "secs = map (\<lambda>(r, d, a). with_seconds r d a) (zip rows (zip deps arrs))"
    by (auto simp: convert_times_def split: sum.splits)
  from apply_time_to_seconds_Inr [OF deps]
  have ld: "length deps = length rows"
    and d: "\<And>i. i < length rows \<Longrightarrow> time_to_seconds (departure_time_str (rows ! i)) = Inr (deps ! i)"
    by auto
  from apply_time_to_seconds_Inr [OF arrs]
  have la: "length arrs = length rows"
    and a: "\<And>i. i < length rows \<Longrightarrow> time_to_seconds (arrival_time_str (rows ! i)) = Inr (arrs ! i)"
    by auto
  show "length secs = length rows"
    using ld la by (simp add: secs)
  have nth: "secs ! i = with_seconds (rows ! i) (deps ! i) (arrs ! i)" if "i < length rows" for i
    using that ld la by (simp add: secs)
  show "i < length rows \<Longrightarrow> st_trip_id (secs ! i) = st_trip_id (rows ! i)"
    by (simp add: nth with_seconds_sel)
  show "i < length rows \<Longrightarrow> st_stop_id (secs ! i) = st_stop_id (rows ! i)"
    by (simp add: nth with_seconds_sel)
  show "i < length rows \<Longrightarrow> stop_sequence (secs ! i) = stop_sequence (rows ! i)"
    by (simp add: nth with_seconds_sel)
  show "i < length rows \<Longrightarrow>
           time_to_seconds (departure_time_str (rows ! i)) = Inr (departure_time_sec (secs ! i))"
    by (simp add: nth with_seconds_sel d)
  show "i < length rows \<Longrightarrow>
           time_to_seconds (arrival_time_str (rows ! i)) = Inr (arrival_time_sec (secs ! i))"
    by (simp add: nth with_seconds_sel a)
qed

lemma has_edge_ensure_node: "has_edge G x y \<Longrightarrow> has_edge (ensure_node n G) x y"
  by (auto simp: has_edge_def ensure_node_def update_conv' split: option.splits)

lemma has_edge_add_edge: "has_edge (add_edge u v attr G) u v"
  by (simp add: has_edge_def add_edge_def Let_def update_conv')

lemma has_edge_add_edge_keep:
  assumes "has_edge G x y"
  shows "has_edge (add_edge u v attr G) x y"
proof -
  define G' where "G' = ensure_node v (ensure_node u G)"
  from assms have "has_edge G' x y"
    unfolding G'_def by (intro has_edge_ensure_node)
  then show ?thesis
    unfolding add_edge_def Let_def G'_def [symmetric]
    by (auto simp: has_edge_def update_conv' split: option.splits)
qed

lemma trip_edges_keep: "has_edge G x y \<Longrightarrow> has_edge (trip_edges tid rname vs G) x y"
  by (induction tid rname vs G rule: trip_edges.induct) (simp_all add: has_edge_add_edge_keep)

lemma trip_edges_pairs:
  "Suc i < length vs \<Longrightarrow>
     has_edge (trip_edges tid rname vs G) (st_stop_id (vs ! i)) (st_stop_id (vs ! Suc i))"
proof (induction tid rname vs G arbitrary: i rule: trip_edges.induct)
  case (1 tid rname a b rest G)
  show ?case
  proof (cases i)
    case 0
    then show ?thesis
      by (simp add: trip_edges_keep has_edge_add_edge)
  next
    case (Suc j)
    with "1.prems" have "Suc j < length (b # rest)" by simp
    from "1.IH" [OF this] Suc show ?thesis by simp
  qed
qed simp_all

lemma fold_keep:
  assumes "\<And>x G. has_edge G u v \<Longrightarrow> has_edge (f x G) u v" and "has_edge G u v"
  shows "has_edge (fold f xs G) u v"
  using assms(2) by (induction xs arbitrary: G) (simp_all add: assms(1))

lemma fold_once:
  assumes "x \<in> set xs" and "\<And>G. has_edge (f x G) u v"
    and "\<And>y G. has_edge G u v \<Longrightarrow> has_edge (f y G) u v"
  shows "has_edge (fold f xs G) u v"
  using assms(1)
proof (induction xs arbitrary: G)
  case Nil
  then show ?case by simp
next
  case (Cons y ys)
  show ?case
  proof (cases "x = y")
    case True
    have "has_edge (f y G) u v" using assms(2) True by simp
    then show ?thesis by (simp add: fold_keep [OF assms(3)])
  next
    case False
    with Cons.prems have "x \<in> set ys" by simp
    from Cons.IH [OF this] show ?thesis by simp
  qed
qed

lemma add_transfer_keep: "has_edge G u v \<Longrightarrow> has_edge (add_transfer tr G) u v"
  by (simp add: add_transfer_def Let_def has_edge_add_edge_keep)

lemma build_graph_edges:
  assumes conv: "convert_times
      (filter (\<lambda>r. st_trip_id r \<in> set (map trips_trip_id
                 (filter (\<lambda>t. trips_service_id t \<in> set service_ids) (trips_df self))))
         (stop_times_df self)) = Inr secs"
  shows "\<exists>G. build_graph_for_day_type self day_type service_ids = Inr G
           \<and> (\<forall>t j. t \<in> st_trip_id ` set secs
                 \<and> Suc j < length (sort_key stop_sequence (filter (\<lambda>r. st_trip_id r = t)
                                     (sort_key (\<lambda>r. (st_trip_id r, stop_sequence r)) secs)))
               \<longrightarrow> has_edge G
                     (st_stop_id (sort_key stop_sequence (filter (\<lambda>r. st_trip_id r = t)
                         (sort_key (\<lambda>r. (st_trip_id r, stop_sequence r)) secs)) ! j))
                     (st_stop_id (sort_key stop_sequence (filter (\<lambda>r. st_trip_id r = t)
                         (sort_key (\<lambda>r. (st_trip_id r, stop_sequence r)) secs)) ! Suc j)))"
proof -
  define G0 where "G0 = fold (\<lambda>stop. add_node (row_stop_id stop)
                       \<lparr>stop_name = row_stop_name stop, lat = stop_lat stop, lon = stop_lon stop\<rparr>)
                 (stops_df self) empty_graph"
  define route_map where "route_map = trip_route_map
      (filter (\<lambda>t. trips_service_id t \<in> set service_ids) (trips_df self)) (routes_df self)"
  define sorted_rows where "sorted_rows = sort_key (\<lambda>r. (st_trip_id r, stop_sequence r)) secs"
  define vs where "vs = (\<lambda>tid. sort_key stop_sequence (filter (\<lambda>r. st_trip_id r = tid) sorted_rows))"
  define f where "f = (\<lambda>tid. trip_edges tid
                           (case map_of route_map tid of None \<Rightarrow> Str ''Unknown'' | Some c \<Rightarrow> c)
                           (vs tid))"
  define G1 where "G1 = fold f (sort (remdups (map st_trip_id sorted_rows))) G0"
  have build: "build_graph_for_day_type self day_type service_ids =
                 (case transfers_df self of None \<Rightarrow> Inr G1
                  | Some transfers \<Rightarrow> Inr (fold add_transfer transfers G1))"
    unfolding build_graph_for_day_type_def Let_def conv G1_def f_def vs_def route_map_def
      sorted_rows_def G0_def by simp
  have edges: "has_edge G1 (st_stop_id (vs t ! j)) (st_stop_id (vs t ! Suc j))"
    if t: "t \<in> st_trip_id ` set secs" and j: "Suc j < length (vs t)" for t j
    unfolding G1_def
  proof (rule fold_once [where x = t])
    show "t \<in> set (sort (remdups (map st_trip_id sorted_rows)))"
      using t by (simp add: sorted_rows_def)
    show "has_edge (f t G) (st_stop_id (vs t ! j)) (st_stop_id (vs t ! Suc j))" for G
      unfolding f_def by (rule trip_edges_pairs [OF j])
    show "has_edge G (st_stop_id (vs t ! j)) (st_stop_id (vs t ! Suc j)) \<Longrightarrow>
          has_edge (f y G) (st_stop_id (vs t ! j)) (st_stop_id (vs t ! Suc j))" for y G
      unfolding f_def by (rule trip_edges_keep)
  qed
  show ?thesis
  proof (cases "transfers_df self")
    case None
    with build edges show ?thesis
      by (simp add: vs_def sorted_rows_def)
  next
    case (Some transfers)
    have "has_edge (fold add_transfer transfers G1) u v" if "has_edge G1 u v" for u v
      using that by (intro fold_keep add_transfer_keep)
    with Some build edges show ?thesis
      by (simp add: vs_def sorted_rows_def)
  qed
qed

lemma convert_times_Inl:
  assumes "convert_times rows = Inl e"
  shows "\<exists>r \<in> set rows.
           (departure_time_str r \<noteq> NaN \<and> time_to_seconds (departure_time_str r) = Inl e)
         \<or> (arrival_time_str r \<noteq> NaN \<and> time_to_seconds (arrival_time_str r) = Inl e)"
proof (cases "apply_time_to_seconds (map departure_time_str rows)")
  case (Inl e')
  with assms have "e' = e" by (simp add: convert_times_def)
  with Inl apply_time_to_seconds_Inl [of "map departure_time_str rows" e]
  show ?thesis by auto
next
  case (Inr deps)
  with assms have "apply_time_to_seconds (map arrival_time_str rows) = Inl e"
    by (auto simp: convert_times_def split: sum.splits)
  from apply_time_to_seconds_Inl [OF this] show ?thesis by auto
qed

section \<open>The graph builder\<close>

text \<open>
  C1. Claim: parallel edges between the same ordered pair of stops are all retained.
  The builder creates a \<^verbatim>\<open>DiGraph\<close>, so the second trip from A to B overwrites the
  attributes of the first: the built graph has the one edge of trip T2 (09:00:00) and
  nothing of trip T1 (08:00:00).
\<close>

theorem parallel_edges_overwritten:
  "build_graph_for_day_type parallel_builder ''weekday'' [''S1''] =
     Inr \<lparr>nodes = [(''A'', Some \<lparr>stop_name = ''Alpha'', lat = 48, lon = 11\<rparr>),
                   (''B'', Some \<lparr>stop_name = ''Beta'', lat = 48, lon = 11\<rparr>)],
          adj = [(''A'', [(''B'', AttrDict \<lparr>departure_time = Some 32400, arrival_time = Some 33000,
                                            duration = Some 600, trip_id = Some ''T2'',
                                            route_name = Some (Str ''U6''), transfer = None\<rparr>)]),
                 (''B'', [])]\<rparr>"
  by code_simp

text \<open>
  C5. Every calendar rule, processed after any others: a rule active on Monday to Friday
  only goes to \<open>weekday\<close> alone, one active on Saturday only to \<open>saturday\<close> alone, one active
  on Sunday only to \<open>sunday\<close> alone; any other rule goes to every variant whose day flag
  is set (\<open>weekday\<close> when a flag of Monday to Friday is); a rule with no flag set goes to
  none.
\<close>

theorem service_classification:
  fixes r :: calendar_row and rows :: "calendar_row list"
  defines "before \<equiv> get_service_ids_by_day_type rows"
    and "after \<equiv> get_service_ids_by_day_type (rows @ [r])"
    and "mon_fri_only \<equiv> monday r = 1 \<and> tuesday r = 1 \<and> wednesday r = 1 \<and> thursday r = 1 \<and>
           friday r = 1 \<and> saturday r = 0 \<and> sunday r = 0"
    and "sat_only \<equiv> saturday r = 1 \<and> sunday r = 0 \<and> monday r = 0 \<and> tuesday r = 0 \<and>
           wednesday r = 0 \<and> thursday r = 0 \<and> friday r = 0"
    and "sun_only \<equiv> sunday r = 1 \<and> saturday r = 0 \<and> monday r = 0 \<and> tuesday r = 0 \<and>
           wednesday r = 0 \<and> thursday r = 0 \<and> friday r = 0"
  shows "(mon_fri_only \<longrightarrow> after = before\<lparr>weekday := weekday before @ [service_id r]\<rparr>)
    \<and> (sat_only \<longrightarrow> after = before\<lparr>saturday_ids := saturday_ids before @ [service_id r]\<rparr>)
    \<and> (sun_only \<longrightarrow> after = before\<lparr>sunday_ids := sunday_ids before @ [service_id r]\<rparr>)
    \<and> (\<not> mon_fri_only \<and> \<not> sat_only \<and> \<not> sun_only \<longrightarrow>
         weekday after = weekday before @
           (if monday r = 1 \<or> tuesday r = 1 \<or> wednesday r = 1 \<or> thursday r = 1 \<or> friday r = 1
            then [service_id r] else [])
       \<and> saturday_ids after = saturday_ids before @ (if saturday r = 1 then [service_id r] else [])
       \<and> sunday_ids after = sunday_ids before @ (if sunday r = 1 then [service_id r] else []))
    \<and> (monday r = 0 \<and> tuesday r = 0 \<and> wednesday r = 0 \<and> thursday r = 0 \<and> friday r = 0 \<and>
         saturday r = 0 \<and> sunday r = 0 \<longrightarrow> after = before)"
proof -
  have step: "after = classify_row r before"
    by (simp add: after_def before_def get_service_ids_by_day_type_def)
  show ?thesis
    unfolding step mon_fri_only_def sat_only_def sun_only_def
    by (simp add: classify_row_def Let_def)
qed

theorem service_classification_witness:
  "get_service_ids_by_day_type ([] @ [weekend_rule]) =
     \<lparr>weekday = [], saturday_ids = [''WE''], sunday_ids = [''WE'']\<rparr>"
proof -
  have base: "get_service_ids_by_day_type [] = \<lparr>weekday = [], saturday_ids = [], sunday_ids = []\<rparr>"
    by (simp add: get_service_ids_by_day_type_def)
  show ?thesis
    using service_classification [of weekend_rule "[]"]
    by (simp add: base weekend_rule_def)
qed

text \<open>
  C7, as stated, fails: with a departure at 25:00:00 and a raw arrival of 00:30:00 the
  24 hours are added once and the stored duration is negative.
\<close>

theorem midnight_correction_counterexample:
  "time_to_seconds (Str ''25:00:00'') = Inr 90000
   \<and> time_to_seconds (Str ''00:30:00'') = Inr 1800
   \<and> duration (segment_edge (at_times 90000 90000) (at_times 1800 1800) ''T1'' NaN) = Some (- 1800)
   \<and> \<not> (0::int) \<le> - 1800"
  by code_simp

text \<open>
  C7, amended. For every consecutive pair of visits whose two times lie between 0 and
  \<open>2 ^ 63 - 86401\<close> seconds, so that the 64-bit arithmetic of the columns does not wrap:
  when the arrival is smaller than the departure, 86400 is added to it; the stored
  duration is arrival minus departure; and it is not negative when the raw arrival is at
  most 86400 seconds before the departure. Departure 23:50:00 and raw arrival 00:10:00
  give arrival = departure + 1200. Without the bound the sum wraps: a departure at
  \<open>2 ^ 63 - 1\<close> and a raw arrival at \<open>2 ^ 63 - 2\<close> store a negative arrival.
\<close>

theorem midnight_correction:
  fixes from_stop to_stop :: stop_time_sec and tid :: string and rname :: cell
  defines "dep \<equiv> departure_time_sec from_stop"
    and "raw \<equiv> arrival_time_sec to_stop"
    and "e \<equiv> segment_edge from_stop to_stop tid rname"
  shows "(0 \<le> dep \<and> dep \<le> 2 ^ 63 - 86401 \<and> 0 \<le> raw \<and> raw \<le> 2 ^ 63 - 86401 \<longrightarrow>
            departure_time e = Some dep
          \<and> arrival_time e = Some (if raw < dep then raw + 86400 else raw)
          \<and> duration e = Some ((if raw < dep then raw + 86400 else raw) - dep)
          \<and> (dep - raw \<le> 86400 \<longrightarrow> 0 \<le> (if raw < dep then raw + 86400 else raw) - dep))
    \<and> time_to_seconds (Str ''23:50:00'') = Inr 85800
    \<and> time_to_seconds (Str ''00:10:00'') = Inr 600
    \<and> arrival_time (segment_edge (at_times 85800 85800) (at_times 600 600) tid rname)
        = Some (85800 + 1200)
    \<and> arrival_time (segment_edge (at_times 0 (2 ^ 63 - 1)) (at_times (2 ^ 63 - 2) 0) tid rname)
        = Some (- 9223372036854689410)"
proof -
  have parse: "time_to_seconds (Str ''23:50:00'') = Inr 85800"
    "time_to_seconds (Str ''00:10:00'') = Inr 600"
    by code_simp+
  have sel: "departure_time_sec (at_times a d) = d" "arrival_time_sec (at_times a d) = a" for a d
    by (simp_all add: at_times_def with_seconds_def stop_time_row.extend_def
        stop_time_sec.fields_def visit_def)
  have general: "departure_time e = Some dep
      \<and> arrival_time e = Some (if raw < dep then raw + 86400 else raw)
      \<and> duration e = Some ((if raw < dep then raw + 86400 else raw) - dep)
      \<and> (dep - raw \<le> 86400 \<longrightarrow> 0 \<le> (if raw < dep then raw + 86400 else raw) - dep)"
    if range: "0 \<le> dep" "dep \<le> 2 ^ 63 - 86401" "0 \<le> raw" "raw \<le> 2 ^ 63 - 86401"
  proof -
    have sum: "int64 (raw + 86400) = raw + 86400"
      using range by (intro int64_id) simp_all
    have diff: "int64 (x - dep) = x - dep" if "0 \<le> x" "x \<le> 2 ^ 63 - 1" for x
      using range that by (intro int64_id) simp_all
    have d1: "int64 (raw + 86400 - dep) = raw + 86400 - dep"
      using range by (intro diff) simp_all
    have d2: "int64 (raw - dep) = raw - dep"
      using range by (intro diff) simp_all
    show ?thesis
      unfolding e_def dep_def raw_def segment_edge_def Let_def
      using sum d1 d2 by (simp add: dep_def raw_def)
  qed
  have near: "arrival_time (segment_edge (at_times 85800 85800) (at_times 600 600) tid rname)
                = Some (85800 + 1200)"
    by (simp add: segment_edge_def Let_def sel int64_def)
  have far: "arrival_time (segment_edge (at_times 0 (2 ^ 63 - 1)) (at_times (2 ^ 63 - 2) 0) tid rname)
               = Some (- 9223372036854689410)"
    by (simp add: segment_edge_def Let_def sel int64_def)
  from general parse near far show ?thesis by blast
qed

theorem midnight_correction_witness:
  "(0::int) \<le> 85800 \<and> (85800::int) \<le> 2 ^ 63 - 86401 \<and> (0::int) \<le> 600 \<and> (600::int) \<le> 2 ^ 63 - 86401
   \<and> (85800::int) - 600 \<le> 86400
   \<and> duration (segment_edge (at_times 85800 85800) (at_times 600 600) ''T1'' NaN) = Some 1200"
  using midnight_correction [of "at_times 85800 85800" "at_times 600 600" "''T1''" NaN]
  by (simp add: at_times_def with_seconds_def stop_time_row.extend_def
      stop_time_sec.fields_def visit_def)

text \<open>
  C10. \<^verbatim>\<open>time_to_seconds\<close> of a missing clock string is 0, so: the conversion of the day's
  visits fails only on a clock string that is there and malformed; where it succeeds it
  keeps every visit, with second 0 for a missing departure and for a missing arrival;
  the edge of a pair departs at the second of its first visit; the visits of a trip, as
  many as they are, give an edge for every consecutive pair, whatever their times; and a
  build whose conversion succeeds returns a graph that has the edge of every consecutive
  pair of every trip of the day. Two builds show the edges: one with a missing first
  departure, one whose middle visit has neither time.
\<close>

theorem missing_time_is_midnight:
  fixes self :: builder and day_type :: string and service_ids :: "string list"
    and secs :: "stop_time_sec list" and t :: string
  defines "day_rows \<equiv>
      filter (\<lambda>r. st_trip_id r \<in> set (map trips_trip_id
                 (filter (\<lambda>t. trips_service_id t \<in> set service_ids) (trips_df self))))
         (stop_times_df self)"
    and "trip_stops \<equiv>
      sort_key stop_sequence (filter (\<lambda>r. st_trip_id r = t)
         (sort_key (\<lambda>r. (st_trip_id r, stop_sequence r)) secs))"
  shows "time_to_seconds NaN = Inr 0
   \<and> (convert_times bad_rows = Inl e \<longrightarrow>
        (\<exists>r \<in> set bad_rows.
            (departure_time_str r \<noteq> NaN \<and> time_to_seconds (departure_time_str r) = Inl e)
          \<or> (arrival_time_str r \<noteq> NaN \<and> time_to_seconds (arrival_time_str r) = Inl e)))
   \<and> (convert_times rows = Inr out \<and> i < length rows \<longrightarrow>
        length out = length rows
        \<and> st_trip_id (out ! i) = st_trip_id (rows ! i)
        \<and> st_stop_id (out ! i) = st_stop_id (rows ! i)
        \<and> stop_sequence (out ! i) = stop_sequence (rows ! i)
        \<and> (departure_time_str (rows ! i) = NaN \<longrightarrow> departure_time_sec (out ! i) = 0)
        \<and> (arrival_time_str (rows ! i) = NaN \<longrightarrow> arrival_time_sec (out ! i) = 0))
   \<and> departure_time (segment_edge a b tid rname) = Some (departure_time_sec a)
   \<and> (Suc k < length vs \<longrightarrow>
        has_edge (trip_edges tid rname vs G) (st_stop_id (vs ! k)) (st_stop_id (vs ! Suc k)))
   \<and> (convert_times day_rows = Inr secs \<longrightarrow>
        (\<exists>G'. build_graph_for_day_type self day_type service_ids = Inr G'
           \<and> (t \<in> st_trip_id ` set secs \<and> Suc j < length trip_stops \<longrightarrow>
                has_edge G' (st_stop_id (trip_stops ! j)) (st_stop_id (trip_stops ! Suc j)))))
   \<and> build_graph_for_day_type nan_builder ''weekday'' [''S1''] =
       Inr \<lparr>nodes = [(''A'', Some \<lparr>stop_name = ''Alpha'', lat = 48, lon = 11\<rparr>),
                     (''B'', Some \<lparr>stop_name = ''Beta'', lat = 48, lon = 11\<rparr>)],
            adj = [(''A'', [(''B'', AttrDict \<lparr>departure_time = Some 0, arrival_time = Some 29400,
                                              duration = Some 29400, trip_id = Some ''T1'',
                                              route_name = Some (Str ''U6''), transfer = None\<rparr>)]),
                   (''B'', [])]\<rparr>
   \<and> build_graph_for_day_type gap_builder ''weekday'' [''S1''] =
       Inr \<lparr>nodes = [(''A'', Some \<lparr>stop_name = ''Alpha'', lat = 48, lon = 11\<rparr>),
                     (''B'', Some \<lparr>stop_name = ''Beta'', lat = 48, lon = 11\<rparr>),
                     (''C'', Some \<lparr>stop_name = ''Gamma'', lat = 48, lon = 11\<rparr>)],
            adj = [(''A'', [(''B'', AttrDict \<lparr>departure_time = Some 28800, arrival_time = Some 86400,
                                              duration = Some 57600, trip_id = Some ''T1'',
                                              route_name = Some (Str ''U6''), transfer = None\<rparr>)]),
                   (''B'', [(''C'', AttrDict \<lparr>departure_time = Some 0, arrival_time = Some 30000,
                                              duration = Some 30000, trip_id = Some ''T1'',
                                              route_name = Some (Str ''U6''), transfer = None\<rparr>)]),
                   (''C'', [])]\<rparr>"
proof -
  have nan: "time_to_seconds NaN = Inr 0"
    by (rule time_to_seconds_NaN)
  have bad: "convert_times bad_rows = Inl e \<longrightarrow>
        (\<exists>r \<in> set bad_rows.
            (departure_time_str r \<noteq> NaN \<and> time_to_seconds (departure_time_str r) = Inl e)
          \<or> (arrival_time_str r \<noteq> NaN \<and> time_to_seconds (arrival_time_str r) = Inl e))"
    using convert_times_Inl [of bad_rows e] by blast
  have good: "convert_times rows = Inr out \<and> i < length rows \<longrightarrow>
        length out = length rows
        \<and> st_trip_id (out ! i) = st_trip_id (rows ! i)
        \<and> st_stop_id (out ! i) = st_stop_id (rows ! i)
        \<and> stop_sequence (out ! i) = stop_sequence (rows ! i)
        \<and> (departure_time_str (rows ! i) = NaN \<longrightarrow> departure_time_sec (out ! i) = 0)
        \<and> (arrival_time_str (rows ! i) = NaN \<longrightarrow> arrival_time_sec (out ! i) = 0)"
  proof (intro impI, elim conjE)
    assume c: "convert_times rows = Inr out" and i: "i < length rows"
    note f = convert_times_Inr [OF c]
    from f(5) [OF i] have "departure_time_str (rows ! i) = NaN \<longrightarrow> departure_time_sec (out ! i) = 0"
      by (auto simp: nan)
    moreover from f(6) [OF i] have "arrival_time_str (rows ! i) = NaN \<longrightarrow> arrival_time_sec (out ! i) = 0"
      by (auto simp: nan)
    ultimately show "length out = length rows
        \<and> st_trip_id (out ! i) = st_trip_id (rows ! i)
        \<and> st_stop_id (out ! i) = st_stop_id (rows ! i)
        \<and> stop_sequence (out ! i) = stop_sequence (rows ! i)
        \<and> (departure_time_str (rows ! i) = NaN \<longrightarrow> departure_time_sec (out ! i) = 0)
        \<and> (arrival_time_str (rows ! i) = NaN \<longrightarrow> arrival_time_sec (out ! i) = 0)"
      using f(1) f(2) [OF i] f(3) [OF i] f(4) [OF i] by blast
  qed
  have seg: "departure_time (segment_edge a b tid rname) = Some (departure_time_sec a)"
    by (simp add: segment_edge_def Let_def)
  have pairs: "Suc k < length vs \<longrightarrow>
        has_edge (trip_edges tid rname vs G) (st_stop_id (vs ! k)) (st_stop_id (vs ! Suc k))"
    using trip_edges_pairs [of k vs tid rname G] by blast
  have whole: "convert_times day_rows = Inr secs \<longrightarrow>
        (\<exists>G'. build_graph_for_day_type self day_type service_ids = Inr G'
           \<and> (t \<in> st_trip_id ` set secs \<and> Suc j < length trip_stops \<longrightarrow>
                has_edge G' (st_stop_id (trip_stops ! j)) (st_stop_id (trip_stops ! Suc j))))"
  proof
    assume "convert_times day_rows = Inr secs"
    from build_graph_edges [OF this [unfolded day_rows_def], of day_type]
    show "\<exists>G'. build_graph_for_day_type self day_type service_ids = Inr G'
           \<and> (t \<in> st_trip_id ` set secs \<and> Suc j < length trip_stops \<longrightarrow>
                has_edge G' (st_stop_id (trip_stops ! j)) (st_stop_id (trip_stops ! Suc j)))"
      unfolding trip_stops_def by blast
  qed
  have build1: "build_graph_for_day_type nan_builder ''weekday'' [''S1''] =
       Inr \<lparr>nodes = [(''A'', Some \<lparr>stop_name = ''Alpha'', lat = 48, lon = 11\<rparr>),
                     (''B'', Some \<lparr>stop_name = ''Beta'', lat = 48, lon = 11\<rparr>)],
            adj = [(''A'', [(''B'', AttrDict \<lparr>departure_time = Some 0, arrival_time = Some 29400,
                                              duration = Some 29400, trip_id = Some ''T1'',
                                              route_name = Some (Str ''U6''), transfer = None\<rparr>)]),
                   (''B'', [])]\<rparr>"
    by code_simp
  have build2: "build_graph_for_day_type gap_builder ''weekday'' [''S1''] =
       Inr \<lparr>nodes = [(''A'', Some \<lparr>stop_name = ''Alpha'', lat = 48, lon = 11\<rparr>),
                     (''B'', Some \<lparr>stop_name = ''Beta'', lat = 48, lon = 11\<rparr>),
                     (''C'', Some \<lparr>stop_name = ''Gamma'', lat = 48, lon = 11\<rparr>)],
            adj = [(''A'', [(''B'', AttrDict \<lparr>departure_time = Some 28800, arrival_time = Some 86400,
                                              duration = Some 57600, trip_id = Some ''T1'',
                                              route_name = Some (Str ''U6''), transfer = None\<rparr>)]),
                   (''B'', [(''C'', AttrDict \<lparr>departure_time = Some 0, arrival_time = Some 30000,
                                              duration = Some 30000, trip_id = Some ''T1'',
                                              route_name = Some (Str ''U6''), transfer = None\<rparr>)]),
                   (''C'', [])]\<rparr>"
    by code_simp
  from nan bad good seg pairs whole build1 build2 show ?thesis
    by (intro conjI)
qed

theorem missing_time_is_midnight_witness:
  "convert_times [visit ''T1'' ''A'' 1 NaN (Str ''8'')] = Inl IndexError
   \<and> convert_times gap_visits = Inr gap_secs
   \<and> (1::nat) < length gap_visits
   \<and> departure_time_str (gap_visits ! 1) = NaN
   \<and> arrival_time_str (gap_visits ! 1) = NaN
   \<and> Suc 1 < length gap_secs
   \<and> convert_times (filter (\<lambda>r. st_trip_id r \<in> set (map trips_trip_id
          (filter (\<lambda>t. trips_service_id t \<in> set [''S1'']) (trips_df gap_builder))))
        (stop_times_df gap_builder)) = Inr gap_secs
   \<and> ''T1'' \<in> st_trip_id ` set gap_secs
   \<and> Suc 1 < length (sort_key stop_sequence (filter (\<lambda>r. st_trip_id r = ''T1'')
         (sort_key (\<lambda>r. (st_trip_id r, stop_sequence r)) gap_secs)))
   \<and> departure_time_sec (gap_secs ! 1) = 0
   \<and> arrival_time_sec (gap_secs ! 1) = 0
   \<and> has_edge (trip_edges ''T1'' NaN gap_secs empty_graph)
        (st_stop_id (gap_secs ! 1)) (st_stop_id (gap_secs ! Suc 1))"
proof -
  have h1: "convert_times [visit ''T1'' ''A'' 1 NaN (Str ''8'')] = Inl IndexError"
    by code_simp
  have h2: "convert_times gap_visits = Inr gap_secs"
    by code_simp
  have h3: "(1::nat) < length gap_visits"
    by (simp add: gap_visits_def)
  have h4: "departure_time_str (gap_visits ! 1) = NaN" "arrival_time_str (gap_visits ! 1) = NaN"
    by (simp_all add: gap_visits_def visit_def)
  have h5: "Suc 1 < length gap_secs"
    by (simp add: gap_secs_def)
  have h6: "convert_times (filter (\<lambda>r. st_trip_id r \<in> set (map trips_trip_id
          (filter (\<lambda>t. trips_service_id t \<in> set [''S1'']) (trips_df gap_builder))))
        (stop_times_df gap_builder)) = Inr gap_secs"
    by code_simp
  have h7: "''T1'' \<in> st_trip_id ` set gap_secs"
    by code_simp
  have h8: "Suc 1 < length (sort_key stop_sequence (filter (\<lambda>r. st_trip_id r = ''T1'')
         (sort_key (\<lambda>r. (st_trip_id r, stop_sequence r)) gap_secs)))"
    by code_simp
  from missing_time_is_midnight [where bad_rows = "[visit ''T1'' ''A'' 1 NaN (Str ''8'')]"
      and e = IndexError and rows = gap_visits and out = gap_secs and i = 1
      and vs = gap_secs and k = 1 and tid = "''T1''" and rname = NaN and G = empty_graph
      and self = gap_builder and service_ids = "[''S1'']" and day_type = "''weekday''"
      and secs = gap_secs and t = "''T1''" and j = 1]
    h1 h2 h3 h4 h5 h6 h7 h8
  show ?thesis by blast
qed

section \<open>The reachability engine\<close>

text \<open>
  C2. The scenario: from A at 09:00 with a budget of 30 minutes the result is B after
  10.0 minutes without transfer, then C after 30.0 minutes with one transfer; with a
  budget of 15 minutes it is B alone.
\<close>

theorem abc_scenario:
  "calculate_reachability abc_graphs ''A'' ''09:00'' 30 ''weekday'' = Inr [stop_B, stop_C]
   \<and> calculate_reachability abc_graphs ''A'' ''09:00'' 15 ''weekday'' = Inr [stop_B]"
  by code_simp

text \<open>
  C6. For a positive step the timeline has one frame for each of step, 2 step, ... up to
  the largest multiple of the step that is at most the budget; the frame of an elapsed
  value holds the stops of the reachability result with a travel time of at most that
  value, in the order of the result. In the scenario with step 10 and budget 30 the
  frames are 10: B, 20: B, 30: B and C.
\<close>

lemma py_range_steps:
  assumes "0 < step"
  shows "py_range step (budget + 1) step =
           Inr (map (\<lambda>k. int k * step) [1..<nat (budget div step) + 1])"
proof (cases "step \<le> budget")
  case True
  have "(budget - step) div step = budget div step - 1"
    using div_add_self2 [of step "budget - step"] assms by simp
  moreover have "1 \<le> budget div step"
    using True assms pos_imp_zdiv_pos_iff [of step budget] by linarith
  ultimately have n: "nat ((budget + 1 - step - 1) div step + 1) = nat (budget div step)"
    by simp
  have "map (\<lambda>i. step + int i * step) [0..<n] = map (\<lambda>k. int k * step) [1..<n + 1]" for n
    by (induction n) (simp_all add: algebra_simps)
  with True assms n show ?thesis
    by (simp add: py_range_def)
next
  case False
  then have "budget div step \<le> 0"
    using assms pos_imp_zdiv_pos_iff [of step budget] by linarith
  with False assms show ?thesis
    by (simp add: py_range_def)
qed

theorem timeline_frames:
  "(0 < step \<longrightarrow>
      calculate_reachability graphs origin departure budget day_type = Inr result \<longrightarrow>
      calculate_reachability_timeline graphs origin departure budget step day_type =
        Inr (map (\<lambda>k. \<lparr>elapsed_minutes = int k * step,
                        reachable_stops =
                          filter (\<lambda>stop. travel_time_minutes stop \<le> of_int (int k * step)) result\<rparr>)
               [1..<nat (budget div step) + 1]))
   \<and> calculate_reachability_timeline abc_graphs ''A'' ''09:00'' 30 10 ''weekday'' =
       Inr [\<lparr>elapsed_minutes = 10, reachable_stops = [stop_B]\<rparr>,
            \<lparr>elapsed_minutes = 20, reachable_stops = [stop_B]\<rparr>,
            \<lparr>elapsed_minutes = 30, reachable_stops = [stop_B, stop_C]\<rparr>]"
proof -
  have "calculate_reachability_timeline abc_graphs ''A'' ''09:00'' 30 10 ''weekday'' =
       Inr [\<lparr>elapsed_minutes = 10, reachable_stops = [stop_B]\<rparr>,
            \<lparr>elapsed_minutes = 20, reachable_stops = [stop_B]\<rparr>,
            \<lparr>elapsed_minutes = 30, reachable_stops = [stop_B, stop_C]\<rparr>]"
    by code_simp
  then show ?thesis
    by (simp add: calculate_reachability_timeline_def py_range_steps comp_def)
qed

theorem timeline_frames_witness:
  "(0::int) < 7
   \<and> calculate_reachability abc_graphs ''A'' ''09:00'' 15 ''weekday'' = Inr [stop_B]
   \<and> calculate_reachability_timeline abc_graphs ''A'' ''09:00'' 15 7 ''weekday'' =
       Inr [\<lparr>elapsed_minutes = 7, reachable_stops = []\<rparr>,
            \<lparr>elapsed_minutes = 14, reachable_stops = [stop_B]\<rparr>]"
proof -
  have r: "calculate_reachability abc_graphs ''A'' ''09:00'' 15 ''weekday'' = Inr [stop_B]"
    by code_simp
  have n: "[Suc 0..<3] = [Suc 0, Suc (Suc 0)]"
    by code_simp
  show ?thesis
    using timeline_frames [of 7 abc_graphs "''A''" "''09:00''" 15 "''weekday''" "[stop_B]"] r
    by (simp add: n stop_B_def)
qed

text \<open>
  C3, as stated, fails: a budget of 0 minutes (as any non-positive budget) is not rejected;
  the call returns.
\<close>

theorem error_conditions_counterexample:
  "abc_graphs ''weekday'' = Some abc_graph
   \<and> has_node abc_graph ''A''
   \<and> (0::int) \<le> 0
   \<and> calculate_reachability abc_graphs ''A'' ''09:00'' 0 ''weekday'' = Inr []"
  by code_simp

text \<open>
  C3, amended. \<open>calculate_reachability\<close> fails with the invalid-day-type error when the day
  type has no graph, and with the stop-not-found error when the graph is there and the
  origin is not one of its nodes. With a graph for the day type, an origin in it, a
  departure time that parses and a well-formed graph, it returns normally, whatever the
  budget is.
\<close>

theorem error_conditions:
  "(graphs dt = None \<longrightarrow> calculate_reachability graphs org dep b dt = Inl InvalidDayType)
   \<and> (graphs dt = Some G \<and> \<not> has_node G org \<longrightarrow>
        calculate_reachability graphs org dep b dt = Inl StopNotFound)
   \<and> (graphs dt = Some G \<and> has_node G org \<and> well_formed G \<and> hhmm_to_seconds dep = Inr t \<longrightarrow>
        (\<exists>res. calculate_reachability graphs org dep b dt = Inr res))"
proof (intro conjI impI)
  assume "graphs dt = None"
  then show "calculate_reachability graphs org dep b dt = Inl InvalidDayType"
    by (simp add: calculate_reachability_def)
next
  assume "graphs dt = Some G \<and> \<not> has_node G org"
  then show "calculate_reachability graphs org dep b dt = Inl StopNotFound"
    by (simp add: calculate_reachability_def)
next
  assume "graphs dt = Some G \<and> has_node G org \<and> well_formed G \<and> hhmm_to_seconds dep = Inr t"
  then show "\<exists>res. calculate_reachability graphs org dep b dt = Inr res"
    using well_formed_returns [of graphs dt G org dep t b] by blast
qed

theorem error_conditions_witness:
  "abc_graphs ''sunday'' = None
   \<and> calculate_reachability abc_graphs ''A'' ''09:00'' 30 ''sunday'' = Inl InvalidDayType
   \<and> abc_graphs ''weekday'' = Some abc_graph \<and> \<not> has_node abc_graph ''Z''
   \<and> calculate_reachability abc_graphs ''Z'' ''09:00'' 30 ''weekday'' = Inl StopNotFound
   \<and> has_node abc_graph ''A'' \<and> well_formed abc_graph \<and> hhmm_to_seconds ''09:00'' = Inr 32400
   \<and> (\<exists>res. calculate_reachability abc_graphs ''A'' ''09:00'' (- 5) ''weekday'' = Inr res)"
proof -
  have none: "abc_graphs ''sunday'' = None" and some: "abc_graphs ''weekday'' = Some abc_graph"
    by (simp_all add: abc_graphs_def)
  have z: "\<not> has_node abc_graph ''Z''" and a: "has_node abc_graph ''A''"
    and wf: "well_formed abc_graph" and t: "hhmm_to_seconds ''09:00'' = Inr 32400"
    by code_simp+
  show ?thesis
    using error_conditions [of abc_graphs "''sunday''" "''A''" "''09:00''" 30 abc_graph 0]
      error_conditions [of abc_graphs "''weekday''" "''Z''" "''09:00''" 30 abc_graph 0]
      error_conditions [of abc_graphs "''weekday''" "''A''" "''09:00''" "- 5" abc_graph 32400]
      none some z a wf t
    by blast
qed

text \<open>
  C8, as stated, fails: a segment that departs at the departure time and takes no time
  is within a budget of 0 minutes, and its end is returned.
\<close>

theorem zero_budget_counterexample:
  "has_node instant_graph ''A''
   \<and> calculate_reachability instant_graphs ''A'' ''09:00'' 0 ''weekday'' = Inr [stop_B_at_once]
   \<and> [stop_B_at_once] \<noteq> []"
  by code_simp

text \<open>
  C8, amended. With a budget of 0 minutes every returned stop has a travel time of at
  most 0.0 minutes; when every edge of the graph takes time (a trip segment arrives
  after it departs, a transfer has a positive duration) a result is empty, and on a
  well-formed such graph, with the origin in it and a departure time that parses, the
  call returns the empty result.
\<close>

theorem zero_budget:
  "(calculate_reachability graphs org dep 0 dt = Inr res \<longrightarrow>
      (\<forall>r \<in> set res. travel_time_minutes r \<le> 0))
   \<and> (graphs dt = Some G \<and> positive_durations G
        \<and> calculate_reachability graphs org dep 0 dt = Inr res \<longrightarrow> res = [])
   \<and> (graphs dt = Some G \<and> positive_durations G \<and> well_formed G \<and> has_node G org
        \<and> hhmm_to_seconds dep = Inr t \<longrightarrow>
        calculate_reachability graphs org dep 0 dt = Inr [])"
proof -
  have travel: "\<forall>r \<in> set res. travel_time_minutes r \<le> 0"
    if ret: "calculate_reachability graphs org dep 0 dt = Inr res" for res
  proof
    fix r assume r: "r \<in> set res"
    from calculate_reachability_InrD [OF ret] obtain G d ea rs
      where run: "search G d (0 * 60) [(org, d, 0)] [(d, org, 0)] {} = Inr ea"
        and rs: "build_results G org d ea = Inr rs"
        and res: "res = sort_key travel_time_minutes rs"
      by blast
    from r res have "r \<in> set rs" by simp
    from build_results_set [OF rs this] obtain s a k
      where e: "(s, a, k) \<in> set ea" "s \<noteq> org"
        and tr: "travel_time_minutes r = round1_minutes (a - d)"
      by blast
    from search_bound [OF run, of org] e have "a - d \<le> 0" by auto
    from round1_minutes_mono [OF this] tr show "travel_time_minutes r \<le> 0"
      by (simp add: round1_minutes_0)
  qed
  have empty: "res = []"
    if G: "graphs dt = Some G" and pos: "positive_durations G"
      and ret: "calculate_reachability graphs org dep 0 dt = Inr res" for res
  proof -
    from calculate_reachability_InrD [OF ret] G obtain d ea rs
      where run: "search G d 0 [(org, d, 0)] [(d, org, 0)] {} = Inr ea"
        and rs: "build_results G org d ea = Inr rs"
        and res: "res = sort_key travel_time_minutes rs"
      by auto
    have hm: "heap_min (d, org, 0) [] = (d, org, 0)" by (simp add: heap_min_def)
    from run hm obtain nbrs r1
      where nb: "neighbors G org = Inr nbrs"
        and ex: "expand d 0 d 0 nbrs [(org, d, 0)] [] = Inr r1"
        and rest: "search G d 0 (fst r1) (snd r1) {org} = Inr ea"
      by (auto simp: search_Cons split: sum.splits)
    from nb have "(org, nbrs) \<in> set (adj G)"
      by (auto simp: neighbors_def split: option.splits dest: map_of_SomeD)
    with pos have "list_all (\<lambda>(v, ed). list_all positive_edge (edges_in ed)) nbrs"
      by (fastforce simp: positive_durations_def list_all_iff)
    from expand_positive [OF this ex] have "r1 = ([(org, d, 0)], [])" .
    with rest have "ea = [(org, d, 0)]" by (simp add: search.simps)
    with rs res show ?thesis by simp
  qed
  have returns: "calculate_reachability graphs org dep 0 dt = Inr []"
    if "graphs dt = Some G" "positive_durations G" "well_formed G" "has_node G org"
      "hhmm_to_seconds dep = Inr t"
  proof -
    from well_formed_returns [of graphs dt G org dep t 0] that obtain res
      where "calculate_reachability graphs org dep 0 dt = Inr res" by blast
    with empty [OF that(1,2)] show ?thesis by simp
  qed
  from travel empty returns show ?thesis by blast
qed

theorem zero_budget_witness:
  "calculate_reachability instant_graphs ''A'' ''09:00'' 0 ''weekday'' = Inr [stop_B_at_once]
   \<and> travel_time_minutes stop_B_at_once \<le> 0
   \<and> abc_graphs ''weekday'' = Some abc_graph \<and> positive_durations abc_graph
   \<and> well_formed abc_graph \<and> has_node abc_graph ''A'' \<and> hhmm_to_seconds ''09:00'' = Inr 32400
   \<and> calculate_reachability abc_graphs ''A'' ''09:00'' 0 ''weekday'' = Inr []"
proof -
  have inst: "calculate_reachability instant_graphs ''A'' ''09:00'' 0 ''weekday''
                = Inr [stop_B_at_once]"
    by code_simp
  have some: "abc_graphs ''weekday'' = Some abc_graph"
    by (simp add: abc_graphs_def)
  have pos: "positive_durations abc_graph" and wf: "well_formed abc_graph"
    and a: "has_node abc_graph ''A''" and t: "hhmm_to_seconds ''09:00'' = Inr 32400"
    by code_simp+
  show ?thesis
    using zero_budget [of instant_graphs "''A''" "''09:00''" "''weekday''" "[stop_B_at_once]"
        instant_graph 0]
      zero_budget [of abc_graphs "''A''" "''09:00''" "''weekday''" "[]" abc_graph 32400]
      inst some pos wf a t
    by simp
qed

text \<open>
  C4, as stated, fails in its second half: in the graph with the late segment, Y is 25.0
  minutes away with a budget of 30 minutes and 20.0 minutes away with a budget of 400
  minutes, where X comes within reach and its segment to Y arrives before it departs.
\<close>

theorem budget_monotone_counterexample:
  "(30::int) < 400
   \<and> calculate_reachability late_graphs ''A'' ''23:50'' 30 ''weekday''
       = Inr [\<lparr>stop_name = ''Upsilon'', lat = 48, lon = 11, stop_id = ''Y'',
                travel_time_minutes = 25, num_transfers = 0\<rparr>]
   \<and> calculate_reachability late_graphs ''A'' ''23:50'' 400 ''weekday''
       = Inr [\<lparr>stop_name = ''Upsilon'', lat = 48, lon = 11, stop_id = ''Y'',
                travel_time_minutes = 20, num_transfers = 0\<rparr>,
              \<lparr>stop_name = ''Xi'', lat = 48, lon = 11, stop_id = ''X'',
                travel_time_minutes = 370, num_transfers = 0\<rparr>]
   \<and> (25::rat) \<noteq> 20"
  by code_simp

text \<open>
  C4, amended. For budgets b1 < b2, when the query with b2 returns, the query with b1
  returns as well, its stops are among those of b2, and a stop in both has under b2 the
  same travel time or a smaller one; it has the same travel time when no edge of the
  graph goes back in time (no trip segment arrives before it departs, no transfer has a
  negative duration).
\<close>

theorem budget_monotone:
  assumes "b1 < b2" and "graphs dt = Some G"
    and "calculate_reachability graphs org dep b2 dt = Inr res2"
  shows "\<exists>res1. calculate_reachability graphs org dep b1 dt = Inr res1
           \<and> stop_id ` set res1 \<subseteq> stop_id ` set res2
           \<and> (\<forall>r1 \<in> set res1. \<forall>r2 \<in> set res2. stop_id r1 = stop_id r2 \<longrightarrow>
                 travel_time_minutes r2 \<le> travel_time_minutes r1)
           \<and> (nonneg_durations G \<longrightarrow>
                 (\<forall>r1 \<in> set res1. \<forall>r2 \<in> set res2. stop_id r1 = stop_id r2 \<longrightarrow>
                    travel_time_minutes r2 = travel_time_minutes r1))"
proof -
  from calculate_reachability_InrD [OF assms(3)] assms(2) obtain d ea2 rs2
    where node: "has_node G org" and parse: "hhmm_to_seconds dep = Inr d"
      and run2: "search G d (b2 * 60) [(org, d, 0)] [(d, org, 0)] {} = Inr ea2"
      and rs2: "build_results G org d ea2 = Inr rs2"
      and res2: "res2 = sort_key travel_time_minutes rs2"
    by auto
  from assms(1) have le: "b1 * 60 \<le> b2 * 60" by simp
  from search_budgets [OF le run2] obtain ea1
    where run1: "search G d (b1 * 60) [(org, d, 0)] [(d, org, 0)] {} = Inr ea1"
      and gen: "\<And>s a k. map_of ea1 s = Some (a, k) \<Longrightarrow>
                  \<exists>a' k'. map_of ea2 s = Some (a', k') \<and> a' \<le> a"
      and eq: "\<And>s a k. nonneg_durations G \<Longrightarrow> s \<noteq> org \<Longrightarrow> map_of ea1 s = Some (a, k) \<Longrightarrow>
                  \<exists>k'. map_of ea2 s = Some (a, k')"
    by blast
  have d1: "distinct (map fst ea1)" and d2: "distinct (map fst ea2)"
    using search_distinct [OF run1] search_distinct [OF run2] by simp_all
  have attrs: "\<forall>(s, a, k) \<in> set ea1. s = org \<or> has_attrs G s"
  proof clarify
    fix s a k assume in1: "(s, a, k) \<in> set ea1" and "\<not> has_attrs G s"
    from in1 d1 have "map_of ea1 s = Some (a, k)" by simp
    from gen [OF this] obtain a' k' where "(s, a', k') \<in> set ea2" by (auto dest: map_of_SomeD)
    from build_results_complete [OF rs2 this] \<open>\<not> has_attrs G s\<close> show "s = org" by blast
  qed
  from build_results_ok [OF attrs] obtain rs1 where rs1: "build_results G org d ea1 = Inr rs1"
    by blast
  define res1 where "res1 = sort_key travel_time_minutes rs1"
  have ret1: "calculate_reachability graphs org dep b1 dt = Inr res1"
    using assms(2) node parse run1 rs1 by (simp add: calculate_reachability_def res1_def)
  have link: "\<exists>a a' k k'. map_of ea1 (stop_id r1) = Some (a, k) \<and> (stop_id r1, a', k') \<in> set ea2
                \<and> stop_id r1 \<noteq> org \<and> a' \<le> a
                \<and> travel_time_minutes r1 = round1_minutes (a - d)"
    if "r1 \<in> set res1" for r1
  proof -
    from that have "r1 \<in> set rs1" by (simp add: res1_def)
    from build_results_set [OF rs1 this] obtain a k
      where in1: "(stop_id r1, a, k) \<in> set ea1" "stop_id r1 \<noteq> org"
        and tr: "travel_time_minutes r1 = round1_minutes (a - d)"
      by blast
    from in1(1) d1 have m: "map_of ea1 (stop_id r1) = Some (a, k)" by simp
    from gen [OF m] obtain a' k' where "map_of ea2 (stop_id r1) = Some (a', k')" "a' \<le> a"
      by blast
    with m in1(2) tr show ?thesis by (blast dest: map_of_SomeD)
  qed
  have sub: "stop_id ` set res1 \<subseteq> stop_id ` set res2"
  proof
    fix s assume "s \<in> stop_id ` set res1"
    then obtain r1 where r1: "r1 \<in> set res1" "s = stop_id r1" by blast
    from link [OF r1(1)] obtain a' k' where "(stop_id r1, a', k') \<in> set ea2" "stop_id r1 \<noteq> org"
      by blast
    from build_results_complete [OF rs2 this] obtain r2
      where "r2 \<in> set rs2" "stop_id r2 = stop_id r1" by blast
    with r1(2) show "s \<in> stop_id ` set res2"
      by (auto simp: res2 intro: rev_image_eqI)
  qed
  have shared: "travel_time_minutes r2 \<le> travel_time_minutes r1
                \<and> (nonneg_durations G \<longrightarrow> travel_time_minutes r2 = travel_time_minutes r1)"
    if r1: "r1 \<in> set res1" and r2: "r2 \<in> set res2" and same: "stop_id r1 = stop_id r2" for r1 r2
  proof -
    from link [OF r1] obtain a a' k k'
      where m1: "map_of ea1 (stop_id r1) = Some (a, k)" and "(stop_id r1, a', k') \<in> set ea2"
        and org: "stop_id r1 \<noteq> org" and le': "a' \<le> a"
        and t1: "travel_time_minutes r1 = round1_minutes (a - d)"
      by blast
    with d2 have m2: "map_of ea2 (stop_id r1) = Some (a', k')" by simp
    from r2 have "r2 \<in> set rs2" by (simp add: res2)
    from build_results_set [OF rs2 this] same obtain a2 k2
      where "(stop_id r1, a2, k2) \<in> set ea2"
        and t2: "travel_time_minutes r2 = round1_minutes (a2 - d)"
      by auto
    with d2 have "map_of ea2 (stop_id r1) = Some (a2, k2)" by simp
    with m2 have a2: "a2 = a'" by simp
    from le' have "round1_minutes (a' - d) \<le> round1_minutes (a - d)"
      by (intro round1_minutes_mono) simp
    moreover have "a' = a" if "nonneg_durations G"
      using eq [OF that org m1] m2 by simp
    ultimately show ?thesis using t1 t2 a2 by simp
  qed
  from ret1 sub shared show ?thesis by blast
qed

theorem budget_monotone_witness:
  "(15::int) < 30 \<and> abc_graphs ''weekday'' = Some abc_graph
   \<and> calculate_reachability abc_graphs ''A'' ''09:00'' 30 ''weekday'' = Inr [stop_B, stop_C]
   \<and> nonneg_durations abc_graph
   \<and> (\<exists>res1. calculate_reachability abc_graphs ''A'' ''09:00'' 15 ''weekday'' = Inr res1
         \<and> stop_id ` set res1 \<subseteq> stop_id ` set [stop_B, stop_C]
         \<and> (\<forall>r1 \<in> set res1. \<forall>r2 \<in> set [stop_B, stop_C]. stop_id r1 = stop_id r2 \<longrightarrow>
               travel_time_minutes r2 = travel_time_minutes r1))"
proof -
  have lt: "(15::int) < 30" by simp
  have some: "abc_graphs ''weekday'' = Some abc_graph" by (simp add: abc_graphs_def)
  have ret: "calculate_reachability abc_graphs ''A'' ''09:00'' 30 ''weekday'' = Inr [stop_B, stop_C]"
    and nn: "nonneg_durations abc_graph"
    by code_simp+
  from budget_monotone [OF lt some ret] nn lt some ret show ?thesis by blast
qed

end
